theory Spec2Isabelle
  imports Main
begin

section \<open>Data model\<close>

text \<open>
  The quest tracker keeps a static catalog of quests (\<open>questTiers\<close>, an array of tiers,
  each an array of \<open>Quest\<close> objects) and one piece of mutable state, the set of completed
  quest ids. The field \<open>id\<close> of the TypeScript interface is called \<open>qid\<close> here, because
  \<open>id\<close> is the identity function of HOL.
\<close>

record Quest =
  qid :: string
  title :: string
  url :: string
  dependencies :: "string list"

subsection \<open>JavaScript \<open>Map\<close>\<close>

text \<open>
  A JavaScript \<open>Map\<close> keeps its entries in insertion order; \<open>set\<close> on a key that is
  already present replaces the value and leaves the entry where it is. The model is an
  association list with exactly these operations.
\<close>

type_synonym ('k, 'v) js_map = "('k \<times> 'v) list"

fun map_set :: "'k \<Rightarrow> 'v \<Rightarrow> ('k, 'v) js_map \<Rightarrow> ('k, 'v) js_map" where
  "map_set k v [] = [(k, v)]"
| "map_set k v ((k', v') # m) =
     (if k' = k then (k, v) # m else (k', v') # map_set k v m)"

definition map_get :: "'k \<Rightarrow> ('k, 'v) js_map \<Rightarrow> 'v option" where
  "map_get k m = map_of m k"

definition map_has :: "'k \<Rightarrow> ('k, 'v) js_map \<Rightarrow> bool" where
  "map_has k m = (map_get k m \<noteq> None)"

definition map_values :: "('k, 'v) js_map \<Rightarrow> 'v list" where
  "map_values m = map snd m"

section \<open>The runtime: \<open>useQuests\<close>\<close>

text \<open>
  \<open>const questMap = new Map(questTiers.flat().map(q => [q.id, q]))\<close>: the constructor
  inserts the pairs from left to right.
\<close>

definition questMap :: "Quest list list \<Rightarrow> (string, Quest) js_map" where
  "questMap questTiers = foldl (\<lambda>m q. map_set (qid q) q m) [] (concat questTiers)"

subsection \<open>\<open>completeQuestPrerequisites\<close>\<close>

text \<open>
  The \<open>while (queue.length > 0)\<close> loop of \<open>completeQuestPrerequisites\<close>. The array
  \<open>queue\<close> is used as a stack: \<open>pop\<close> takes the last element, \<open>push\<close> appends.
  \<open>questsToComplete\<close> is the set of ids seen so far. The loop is written as a partial
  function, so that nothing about its termination is assumed: \<open>None\<close> stands for a loop
  that never leaves.
\<close>

partial_function (option) completeLoop ::
  "(string, Quest) js_map \<Rightarrow> string list \<Rightarrow> string set \<Rightarrow> string set option" where
  "completeLoop qm queue questsToComplete =
     (if queue = [] then Some questsToComplete
      else
        let currentId = last queue; queue' = butlast queue in
        if currentId \<in> questsToComplete then completeLoop qm queue' questsToComplete
        else
          (case map_get currentId qm of
             Some quest \<Rightarrow>
               completeLoop qm (queue' @ dependencies quest) (insert currentId questsToComplete)
           | None \<Rightarrow> completeLoop qm queue' (insert currentId questsToComplete)))"

text \<open>
  After the loop the origin is deleted from the discovered set and the rest is merged
  into the completed set. The function returns the new value of \<open>completedQuests\<close>.
\<close>

definition completeQuestPrerequisites ::
  "Quest list list \<Rightarrow> string \<Rightarrow> string set \<Rightarrow> string set option" where
  "completeQuestPrerequisites questTiers questId completedQuests =
     (case completeLoop (questMap questTiers) [questId] {} of
        None \<Rightarrow> None
      | Some questsToComplete \<Rightarrow> Some ((questsToComplete - {questId}) \<union> completedQuests))"

subsection \<open>\<open>uncompleteDependants\<close>\<close>

text \<open>
  \<open>Array.from(questMap.values()).filter(q => q.dependencies.includes(currentId))\<close>
\<close>

definition dependantsOf :: "(string, Quest) js_map \<Rightarrow> string \<Rightarrow> Quest list" where
  "dependantsOf qm currentId = filter (\<lambda>q. currentId \<in> set (dependencies q)) (map_values qm)"

partial_function (option) uncompleteLoop ::
  "(string, Quest) js_map \<Rightarrow> string list \<Rightarrow> string set \<Rightarrow> string set option" where
  "uncompleteLoop qm queue questsToUncomplete =
     (if queue = [] then Some questsToUncomplete
      else
        let currentId = last queue; queue' = butlast queue in
        if currentId \<in> questsToUncomplete then uncompleteLoop qm queue' questsToUncomplete
        else
          uncompleteLoop qm (queue' @ map qid (dependantsOf qm currentId))
            (insert currentId questsToUncomplete))"

definition uncompleteDependants ::
  "Quest list list \<Rightarrow> string \<Rightarrow> string set \<Rightarrow> string set option" where
  "uncompleteDependants questTiers questId completedQuests =
     (case uncompleteLoop (questMap questTiers) [questId] {} of
        None \<Rightarrow> None
      | Some questsToUncomplete \<Rightarrow> Some (completedQuests - questsToUncomplete))"

subsection \<open>\<open>anyDependantCompleted\<close>\<close>

definition anyDependantCompleted :: "Quest list list \<Rightarrow> string set \<Rightarrow> Quest \<Rightarrow> bool" where
  "anyDependantCompleted questTiers completedQuests quest =
     list_ex (\<lambda>dep. qid dep \<in> completedQuests) (dependantsOf (questMap questTiers) (qid quest))"


subsection \<open>Hydration from \<open>localStorage\<close>\<close>

text \<open>
  The value \<open>JSON.parse\<close> returns. The persisted format is an array of strings, but
  the file is read from storage that anything may have written, so every JSON value
  has to be representable. The payload of a number is never looked at.
\<close>

datatype json =
  JNull
| JBool bool
| JNumber int
| JString string
| JArray "json list"
| JObject "(string \<times> json) list"

datatype js_error = SyntaxError | SecurityError

text \<open>
  The two \<open>useState\<close> cells the hook reads and writes, and what \<open>console.error\<close>
  received. \<open>new Set(parsed)\<close> takes whatever the array holds: the TypeScript type
  \<open>Set<string>\<close> is not checked at run time, so the set is one of JSON values here.
\<close>

record app_state =
  isInitialized :: bool
  completedQuestsValue :: "json set"
  consoleErrors :: "js_error list"

definition initialState :: app_state where
  "initialState = \<lparr>isInitialized = False, completedQuestsValue = {}, consoleErrors = []\<rparr>"

definition isArray :: "json \<Rightarrow> bool" where
  "isArray parsed = (case parsed of JArray _ \<Rightarrow> True | _ \<Rightarrow> False)"

text \<open>
  The body of the \<open>try\<close> block. \<open>getItem\<close> is the outcome of
  \<open>localStorage.getItem('arc-raiders-progress')\<close>: an exception, \<open>null\<close> (\<open>None\<close>) or
  a string. \<open>JSON_parse\<close> is the built-in parser, a parameter of the model; it throws
  (\<open>Inl\<close>) on text that is not JSON. \<open>if (stored)\<close> is false for \<open>null\<close> and for the
  empty string.
\<close>

definition loadProgress ::
  "(string \<Rightarrow> js_error + json) \<Rightarrow> js_error + string option \<Rightarrow> app_state
     \<Rightarrow> js_error + app_state" where
  "loadProgress JSON_parse getItem st =
     (case getItem of
        Inl e \<Rightarrow> Inl e
      | Inr stored \<Rightarrow>
          (case stored of
             None \<Rightarrow> Inr st
           | Some s \<Rightarrow>
               if s = [] then Inr st
               else
                 (case JSON_parse s of
                    Inl e \<Rightarrow> Inl e
                  | Inr parsed \<Rightarrow>
                      if isArray parsed
                      then (case parsed of
                              JArray xs \<Rightarrow> Inr (st\<lparr>completedQuestsValue := set xs\<rparr>)
                            | _ \<Rightarrow> Inr st)
                      else Inr st)))"

text \<open>
  The \<open>onMounted\<close> callback: the one-shot guard, then the \<open>try\<close> block with its
  \<open>catch\<close>, which logs and goes on. The result is a sum so that an exception leaving
  the callback would be visible as \<open>Inl\<close>.
\<close>

definition onMounted ::
  "(string \<Rightarrow> js_error + json) \<Rightarrow> js_error + string option \<Rightarrow> app_state
     \<Rightarrow> js_error + app_state" where
  "onMounted JSON_parse getItem st =
     (if isInitialized st then Inr st
      else
        let st1 = st\<lparr>isInitialized := True\<rparr> in
        case loadProgress JSON_parse getItem st1 of
          Inl e \<Rightarrow> Inr (st1\<lparr>consoleErrors := consoleErrors st1 @ [e]\<rparr>)
        | Inr st2 \<Rightarrow> Inr st2)"

section \<open>The build script: \<open>generateTiers.js\<close>\<close>

text \<open>
  One entry of the scraped \<open>questData.json\<close>. Its fields are \<open>url\<close>, \<open>dependencies\<close>
  and \<open>unlocks\<close> in the source; the prefix keeps them apart from the fields of \<open>Quest\<close>.
\<close>

record RawQuest =
  raw_url :: string
  raw_dependencies :: "string list"
  raw_unlocks :: "string list"

datatype console_msg = Log string | Warn string | Error string

subsection \<open>\<open>generateId\<close>\<close>

text \<open>
  Titles are strings of 8-bit characters here. \<open>toLowerCase\<close> maps \<open>A\<close>..\<open>Z\<close> to
  \<open>a\<close>..\<open>z\<close>; whatever it does to a character outside ASCII, the second \<open>replace\<close>
  removes the result. After that \<open>replace\<close> the only white space left is the space
  character, so \<open>trim\<close> and \<open>\<bsol>s+\<close> are modelled on spaces alone.
\<close>

definition toLowerCase :: "string \<Rightarrow> string" where
  "toLowerCase s =
     map (\<lambda>c. case map_of (zip ''ABCDEFGHIJKLMNOPQRSTUVWXYZ'' ''abcdefghijklmnopqrstuvwxyz'') c of
                Some l \<Rightarrow> l
              | None \<Rightarrow> c) s"

definition alnumOrSpace :: "char \<Rightarrow> bool" where
  "alnumOrSpace c = (c \<in> set ''abcdefghijklmnopqrstuvwxyz0123456789 '')"

definition trim :: "string \<Rightarrow> string" where
  "trim s = rev (dropWhile (\<lambda>c. c = CHR '' '') (rev (dropWhile (\<lambda>c. c = CHR '' '') s)))"

function underscoreRuns :: "string \<Rightarrow> string" where
  "underscoreRuns [] = []"
| "underscoreRuns (c # cs) =
     (if c = CHR '' '' then CHR ''_'' # underscoreRuns (dropWhile (\<lambda>d. d = CHR '' '') cs)
      else c # underscoreRuns cs)"
  by pat_completeness auto
termination
  by (relation "measure length") (auto simp: le_imp_less_Suc length_dropWhile_le)

definition generateId :: "string \<Rightarrow> string" where
  "generateId t =
     underscoreRuns
       (trim (filter alnumOrSpace (filter (\<lambda>c. c \<noteq> CHR 0x27) (toLowerCase t))))"

subsection \<open>\<open>main\<close>\<close>

text \<open>\<open>Boolean\<close> as a filter on \<open>string | undefined\<close>: \<open>undefined\<close> and \<open>''\<close> are falsy.\<close>

definition Boolean :: "string option \<Rightarrow> bool" where
  "Boolean v = (case v of None \<Rightarrow> False | Some s \<Rightarrow> s \<noteq> [])"

fun join :: "string \<Rightarrow> string list \<Rightarrow> string" where
  "join sep [] = []"
| "join sep [x] = x"
| "join sep (x # y # ys) = x @ sep @ join sep (y # ys)"

function toString :: "nat \<Rightarrow> string" where
  "toString n =
     (if n < 10 then [''0123456789'' ! n]
      else toString (n div 10) @ [''0123456789'' ! (n mod 10)])"
  by pat_completeness auto
termination
  by (relation "measure (\<lambda>n. n)") auto

declare toString.simps [simp del]

text \<open>
  First pass: \<open>titleToIdMap\<close>, a \<open>Map\<close> from title to id, and the warnings written on
  the way. The test is \<open>titleToIdMap.has(title)\<close>: it looks the \<^emph>\<open>title\<close> up, not the id.
\<close>

definition buildTitleToIdMap ::
  "string list \<Rightarrow> console_msg list \<times> (string, string) js_map" where
  "buildTitleToIdMap questTitles =
     foldl (\<lambda>(console, titleToIdMap) t.
              ((if map_has t titleToIdMap
                then console @ [Warn (''Duplicate title found (will be overwritten): '' @ t)]
                else console),
               map_set t (generateId t) titleToIdMap))
       ([], []) questTitles"

text \<open>
  \<open>questData.dependencies.map(depTitle => titleToIdMap.get(depTitle)).filter(Boolean)\<close>
\<close>

definition dependencyIds :: "(string, string) js_map \<Rightarrow> RawQuest \<Rightarrow> string list" where
  "dependencyIds titleToIdMap questData =
     [depId. Some depId \<leftarrow>
        filter Boolean
          (map (\<lambda>depTitle. map_get depTitle titleToIdMap) (raw_dependencies questData))]"

text \<open>
  Second pass: \<open>allQuests\<close>, a \<open>Map\<close> from id to \<open>Quest\<close>. The parsed object is the list
  of its own properties in the order \<open>Object.keys\<close> gives them, and the loop walks that
  list. Every title was entered into \<open>titleToIdMap\<close> by the first pass, so the lookup
  of \<open>title\<close> there never falls into the \<open>None\<close> branch.
\<close>

definition buildAllQuests ::
  "(string, string) js_map \<Rightarrow> (string \<times> RawQuest) list \<Rightarrow> (string, Quest) js_map" where
  "buildAllQuests titleToIdMap questMapRaw =
     foldl (\<lambda>allQuests (t, questData).
              case map_get t titleToIdMap of
                None \<Rightarrow> allQuests
              | Some i \<Rightarrow>
                  map_set i
                    \<lparr>qid = i, title = t, url = raw_url questData,
                     dependencies = dependencyIds titleToIdMap questData\<rparr>
                    allQuests)
       [] questMapRaw"

definition depsMet :: "string set \<Rightarrow> Quest \<Rightarrow> bool" where
  "depsMet processedQuestIds quest =
     list_all (\<lambda>depId. depId \<in> processedQuestIds) (dependencies quest)"

definition stuckLine :: "Quest \<Rightarrow> console_msg" where
  "stuckLine q =
     Log (''- '' @ title q @ '' (Dependencies: '' @ join '', '' (dependencies q) @ '')'')"

text \<open>
  The \<open>while (remainingQuests.length > 0)\<close> loop. It returns what it wrote to the
  console and the tiers, or \<open>None\<close> where the script returns from inside the loop.
\<close>

function tierLoop ::
  "Quest list \<Rightarrow> string set \<Rightarrow> Quest list list
     \<Rightarrow> console_msg list \<times> Quest list list option" where
  "tierLoop remainingQuests processedQuestIds questTiers =
     (if remainingQuests = [] then ([], Some questTiers)
      else
        let currentTier = filter (depsMet processedQuestIds) remainingQuests;
            questsForNextRound = filter (\<lambda>q. \<not> depsMet processedQuestIds q) remainingQuests
        in
          if currentTier = [] \<and> questsForNextRound \<noteq> [] then
            ([Error ''Error: Circular dependency detected!'',
              Error ''The following quests could not be sorted:'']
             @ map stuckLine questsForNextRound, None)
          else
            tierLoop questsForNextRound (processedQuestIds \<union> qid ` set currentTier)
              (questTiers @ [currentTier]))"
  by pat_completeness auto
termination
proof (relation "measure (\<lambda>(remainingQuests, _, _). length remainingQuests)", goal_cases)
  case 1
  show ?case by simp
next
  case (2 remainingQuests processedQuestIds questTiers currentTier questsForNextRound)
  have total: "length currentTier + length questsForNextRound = length remainingQuests"
    unfolding 2(2) 2(3) by (rule sum_length_filter_compl)
  have "currentTier \<noteq> [] \<or> questsForNextRound = []"
    using 2(4) by blast
  then have "0 < length currentTier \<or> length questsForNextRound = 0"
    by simp
  moreover have "0 < length remainingQuests"
    using 2(1) by simp
  ultimately have "length questsForNextRound < length remainingQuests"
    using total by linarith
  then show ?case by simp
qed

declare tierLoop.simps [simp del]

text \<open>
  \<open>main\<close>. The argument is the content of \<open>raw/questData.json\<close> as \<open>JSON.parse\<close> reads
  it, or \<open>None\<close> when \<open>readFileSync\<close> throws. The result is the console output and the
  tiers written to \<open>questData.ts\<close>, or \<open>None\<close> when no file is written.
\<close>

definition main ::
  "(string \<times> RawQuest) list option \<Rightarrow> console_msg list \<times> Quest list list option" where
  "main rawData =
     (case rawData of
        None \<Rightarrow>
          ([Log ''Reading questData.json...'',
            Error ''Error: questData.json not found. Please run \"node getQuestData.js\" first.''],
           None)
      | Some questMapRaw \<Rightarrow>
          let questTitles = map fst questMapRaw;
              (warnings, titleToIdMap) = buildTitleToIdMap questTitles;
              allQuests = buildAllQuests titleToIdMap questMapRaw;
              (errors, sorted) = tierLoop (map_values allQuests) {} []
          in
            (case sorted of
               None \<Rightarrow>
                 ([Log ''Reading questData.json...''] @ warnings
                  @ [Log ''Sorting quests into tiers...''] @ errors, None)
             | Some questTiers \<Rightarrow>
                 ([Log ''Reading questData.json...''] @ warnings
                  @ [Log ''Sorting quests into tiers...'']
                  @ [Log (''Sorted '' @ toString (length allQuests) @ '' quests into ''
                          @ toString (length questTiers) @ '' tiers.''),
                     Log ''Successfully generated: ./app/composables/questData.ts''],
                  Some questTiers)))"

section \<open>Vocabulary of the specification\<close>

subsection \<open>The dependency graph of a catalog\<close>

text \<open>
  \<open>(a, b) \<in> dependsOn questTiers\<close>: some quest of the catalog has id \<open>a\<close> and lists \<open>b\<close>
  in its dependencies (\<open>b\<close> is a direct prerequisite of \<open>a\<close>, \<open>a\<close> a direct dependant
  of \<open>b\<close>).
\<close>

definition dependsOn :: "Quest list list \<Rightarrow> (string \<times> string) set" where
  "dependsOn questTiers =
     {(a, b). \<exists>q \<in> set (concat questTiers). qid q = a \<and> b \<in> set (dependencies q)}"

text \<open>The transitive prerequisites of a quest, without the quest itself.\<close>

definition strictPrerequisites :: "Quest list list \<Rightarrow> string \<Rightarrow> string set" where
  "strictPrerequisites questTiers questId =
     {b. (questId, b) \<in> (dependsOn questTiers)\<^sup>+} - {questId}"

text \<open>A quest together with its transitive dependants.\<close>

definition selfAndDependants :: "Quest list list \<Rightarrow> string \<Rightarrow> string set" where
  "selfAndDependants questTiers questId =
     insert questId {a. (a, questId) \<in> (dependsOn questTiers)\<^sup>+}"

subsection \<open>The input mapping, as the specification reads it\<close>

text \<open>The graph the input mapping itself describes, on titles.\<close>

definition titleDeps :: "(string \<times> RawQuest) list \<Rightarrow> (string \<times> string) set" where
  "titleDeps questMapRaw =
     {(t, d). \<exists>questData. (t, questData) \<in> set questMapRaw
                \<and> d \<in> set (raw_dependencies questData)}"

text \<open>
  Step 1 of the Tier Sorter in the specification: every title gets its slug as id, and
  of two entries with one id the later takes the place of the earlier. \<open>lastWins f\<close>
  keeps an element of a list unless a later element has the same key.
\<close>

fun lastWins :: "('a \<Rightarrow> 'k) \<Rightarrow> 'a list \<Rightarrow> 'a list" where
  "lastWins f [] = []"
| "lastWins f (x # xs) = (if f x \<in> f ` set xs then lastWins f xs else x # lastWins f xs)"

text \<open>
  Step 2 in the specification: every dependency title is rewritten to its id; a
  dependency title that no quest of the mapping has is dropped, and no other is.
  None of the four definitions below uses a definition of \<open>main\<close> other than
  \<open>generateId\<close>.
\<close>

definition specDependencyIds :: "string list \<Rightarrow> RawQuest \<Rightarrow> string list" where
  "specDependencyIds questTitles questData =
     map generateId (filter (\<lambda>d. d \<in> set questTitles) (raw_dependencies questData))"

definition specQuest :: "string list \<Rightarrow> string \<times> RawQuest \<Rightarrow> Quest" where
  "specQuest questTitles entry =
     \<lparr>qid = generateId (fst entry), title = fst entry, url = raw_url (snd entry),
      dependencies = specDependencyIds questTitles (snd entry)\<rparr>"

definition specResolvedQuests :: "(string \<times> RawQuest) list \<Rightarrow> Quest list" where
  "specResolvedQuests questMapRaw =
     map (specQuest (map fst questMapRaw)) (lastWins (\<lambda>entry. generateId (fst entry)) questMapRaw)"

definition specResolvedDeps :: "(string \<times> RawQuest) list \<Rightarrow> (string \<times> string) set" where
  "specResolvedDeps questMapRaw =
     {(a, b). \<exists>q \<in> set (specResolvedQuests questMapRaw).
                qid q = a \<and> b \<in> set (dependencies q)}"

text \<open>
  Some entry lists, as a dependency, the title of a quest of the mapping whose slug is
  the empty string (a title with no letter and no digit).
\<close>

definition emptySlugDependency :: "(string \<times> RawQuest) list \<Rightarrow> bool" where
  "emptySlugDependency questMapRaw =
     list_ex (\<lambda>entry.
                list_ex (\<lambda>d. d \<in> fst ` set questMapRaw \<and> generateId d = [])
                  (raw_dependencies (snd entry)))
       questMapRaw"

text \<open>The nodes of a graph from which a cycle can be reached, those on a cycle included.\<close>

definition reachesCycle :: "('a \<times> 'a) set \<Rightarrow> 'a set" where
  "reachesCycle r = {x. \<exists>c. (x, c) \<in> r\<^sup>* \<and> (c, c) \<in> r\<^sup>+}"

subsection \<open>The list the tier loop starts from\<close>

text \<open>
  The initial value of \<open>remainingQuests\<close> in \<open>main\<close>, \<open>Array.from(allQuests.values())\<close>
  after the two passes, and the graph of the dependency ids these quests carry. Both
  are read off the code and serve the proofs only.
\<close>

definition questsToSort :: "(string \<times> RawQuest) list \<Rightarrow> Quest list" where
  "questsToSort questMapRaw =
     map_values (buildAllQuests (snd (buildTitleToIdMap (map fst questMapRaw))) questMapRaw)"

definition questsToSortDeps :: "(string \<times> RawQuest) list \<Rightarrow> (string \<times> string) set" where
  "questsToSortDeps questMapRaw =
     {(a, b). \<exists>q \<in> set (questsToSort questMapRaw). qid q = a \<and> b \<in> set (dependencies q)}"

subsection \<open>Tiers\<close>

text \<open>
  \<open>depsBelow questTiers t q\<close>: every dependency of \<open>q\<close> is the id of a quest in a tier
  of index less than \<open>t\<close>.
\<close>

definition depsBelow :: "Quest list list \<Rightarrow> nat \<Rightarrow> Quest \<Rightarrow> bool" where
  "depsBelow questTiers t q =
     (\<forall>d \<in> set (dependencies q). \<exists>s < t. s < length questTiers \<and> d \<in> qid ` set (questTiers ! s))"

definition isWarn :: "console_msg \<Rightarrow> bool" where
  "isWarn m = (case m of Warn _ \<Rightarrow> True | _ \<Rightarrow> False)"

section \<open>The worklist loops with a record of the visits\<close>

text \<open>
  The two loops again, with one ghost variable: \<open>processed\<close> lists the ids in the order
  in which the loop body got past its \<open>continue\<close> and expanded them. Nothing else is
  changed, and the ghost variable is never read.
\<close>

partial_function (option) completeLoopTrace ::
  "(string, Quest) js_map \<Rightarrow> string list \<Rightarrow> string set \<Rightarrow> string list
     \<Rightarrow> (string set \<times> string list) option" where
  "completeLoopTrace qm queue questsToComplete processed =
     (if queue = [] then Some (questsToComplete, processed)
      else
        let currentId = last queue; queue' = butlast queue in
        if currentId \<in> questsToComplete
        then completeLoopTrace qm queue' questsToComplete processed
        else
          (case map_get currentId qm of
             Some quest \<Rightarrow>
               completeLoopTrace qm (queue' @ dependencies quest)
                 (insert currentId questsToComplete) (processed @ [currentId])
           | None \<Rightarrow>
               completeLoopTrace qm queue'
                 (insert currentId questsToComplete) (processed @ [currentId])))"

partial_function (option) uncompleteLoopTrace ::
  "(string, Quest) js_map \<Rightarrow> string list \<Rightarrow> string set \<Rightarrow> string list
     \<Rightarrow> (string set \<times> string list) option" where
  "uncompleteLoopTrace qm queue questsToUncomplete processed =
     (if queue = [] then Some (questsToUncomplete, processed)
      else
        let currentId = last queue; queue' = butlast queue in
        if currentId \<in> questsToUncomplete
        then uncompleteLoopTrace qm queue' questsToUncomplete processed
        else
          uncompleteLoopTrace qm (queue' @ map qid (dependantsOf qm currentId))
            (insert currentId questsToUncomplete) (processed @ [currentId]))"

section \<open>An abstract worklist\<close>

text \<open>
  Both loops are the same traversal, over different successor functions. The proofs
  are done once, on this function, and carried over to the loops of the source.
\<close>

partial_function (option) worklist ::
  "('a \<Rightarrow> 'a list) \<Rightarrow> 'a list \<Rightarrow> 'a set \<Rightarrow> 'a list \<Rightarrow> ('a set \<times> 'a list) option" where
  "worklist succs queue seen processed =
     (if queue = [] then Some (seen, processed)
      else if last queue \<in> seen then worklist succs (butlast queue) seen processed
      else worklist succs (butlast queue @ succs (last queue))
             (insert (last queue) seen) (processed @ [last queue]))"

definition edges :: "('a \<Rightarrow> 'a list) \<Rightarrow> ('a \<times> 'a) set" where
  "edges succs = {(a, b). b \<in> set (succs a)}"

definition prerequisitesOf :: "(string, Quest) js_map \<Rightarrow> string \<Rightarrow> string list" where
  "prerequisitesOf qm a =
     (case map_get a qm of Some quest \<Rightarrow> dependencies quest | None \<Rightarrow> [])"

definition dependantIdsOf :: "(string, Quest) js_map \<Rightarrow> string \<Rightarrow> string list" where
  "dependantIdsOf qm a = map qid (dependantsOf qm a)"

section \<open>Example data\<close>

text \<open>The diamond of the specification: A; B and C on A; D on B and C.\<close>

definition diamond :: "Quest list list" where
  "diamond =
    [[\<lparr>qid = ''a'', title = ''A'', url = ''/wiki/A'', dependencies = []\<rparr>],
     [\<lparr>qid = ''b'', title = ''B'', url = ''/wiki/B'', dependencies = [''a'']\<rparr>,
      \<lparr>qid = ''c'', title = ''C'', url = ''/wiki/C'', dependencies = [''a'']\<rparr>],
     [\<lparr>qid = ''d'', title = ''D'', url = ''/wiki/D'', dependencies = [''b'', ''c'']\<rparr>]]"

text \<open>A chain: A, then B on A, then C on B.\<close>

definition chain :: "Quest list list" where
  "chain =
    [[\<lparr>qid = ''a'', title = ''A'', url = ''/wiki/A'', dependencies = []\<rparr>],
     [\<lparr>qid = ''b'', title = ''B'', url = ''/wiki/B'', dependencies = [''a'']\<rparr>],
     [\<lparr>qid = ''c'', title = ''C'', url = ''/wiki/C'', dependencies = [''b'']\<rparr>]]"

text \<open>A stand-in for \<open>JSON.parse\<close> on four texts; every other text is rejected.\<close>

definition parseSample :: "string \<Rightarrow> js_error + json" where
  "parseSample s =
     (if s = ''null'' then Inr JNull
      else if s = ''{}'' then Inr (JObject [])
      else if s = ''7'' then Inr (JNumber 7)
      else if s = ''[7]'' then Inr (JArray [JNumber 7])
      else Inl SyntaxError)"

text \<open>Input mappings for the build script.\<close>

definition twoQuests :: "(string \<times> RawQuest) list" where
  "twoQuests =
     [(''Top Up'',
       \<lparr>raw_url = ''/wiki/Top_Up'', raw_dependencies = [''Bees!'', ''Nowhere''],
        raw_unlocks = []\<rparr>),
      (''Bees!'',
       \<lparr>raw_url = ''/wiki/Bees!'', raw_dependencies = [], raw_unlocks = [''Top Up'']\<rparr>)]"

definition loopQuests :: "(string \<times> RawQuest) list" where
  "loopQuests =
     [(''Ping'', \<lparr>raw_url = ''/wiki/Ping'', raw_dependencies = [''Pong''], raw_unlocks = []\<rparr>),
      (''Pong'', \<lparr>raw_url = ''/wiki/Pong'', raw_dependencies = [''Ping''], raw_unlocks = []\<rparr>)]"

text \<open>A cycle, a quest that depends on it, and a quest that stands alone.\<close>

definition partlyStuck :: "(string \<times> RawQuest) list" where
  "partlyStuck =
     [(''P'', \<lparr>raw_url = ''/wiki/P'', raw_dependencies = [''Q''], raw_unlocks = []\<rparr>),
      (''Q'', \<lparr>raw_url = ''/wiki/Q'', raw_dependencies = [''P''], raw_unlocks = []\<rparr>),
      (''After'', \<lparr>raw_url = ''/wiki/After'', raw_dependencies = [''P''], raw_unlocks = []\<rparr>),
      (''Free'', \<lparr>raw_url = ''/wiki/Free'', raw_dependencies = [], raw_unlocks = []\<rparr>)]"

text \<open>Two titles with one slug, the second depending on the first.\<close>

definition beesThenBees :: "(string \<times> RawQuest) list" where
  "beesThenBees =
     [(''Bees'', \<lparr>raw_url = ''/wiki/Bees'', raw_dependencies = [], raw_unlocks = []\<rparr>),
      (''Bees!'',
       \<lparr>raw_url = ''/wiki/Bees!'', raw_dependencies = [''Bees''], raw_unlocks = []\<rparr>)]"

text \<open>
  Two quests that depend on each other; the title of the first has the empty slug.
\<close>

definition emptySlugCycle :: "(string \<times> RawQuest) list" where
  "emptySlugCycle =
     [(''!!!'', \<lparr>raw_url = ''/wiki/!!!'', raw_dependencies = [''Next''], raw_unlocks = []\<rparr>),
      (''Next'', \<lparr>raw_url = ''/wiki/Next'', raw_dependencies = [''!!!''], raw_unlocks = []\<rparr>)]"

text \<open>Two titles with one slug and no dependencies.\<close>

definition sameSlug :: "(string \<times> RawQuest) list" where
  "sameSlug =
     [(''A Bad Feeling'',
       \<lparr>raw_url = ''/wiki/A_Bad_Feeling'', raw_dependencies = [], raw_unlocks = []\<rparr>),
      (''A Bad Feeling?'',
       \<lparr>raw_url = ''/wiki/A_Bad_Feeling%3F'', raw_dependencies = [], raw_unlocks = []\<rparr>)]"

section \<open>The invariant of the tier loop\<close>

text \<open>
  What holds at the head of the \<open>while\<close> loop of \<open>main\<close>, for the list \<open>quests\<close> the
  loop started from: the processed ids are those of the quests placed so far; placed
  and remaining quests together are \<open>quests\<close>, nothing twice; every placed quest sits
  in the first tier that has all its dependencies below it; and no remaining quest
  could have gone into a tier built so far.
\<close>

definition tierInv ::
  "Quest list \<Rightarrow> Quest list \<Rightarrow> string set \<Rightarrow> Quest list list \<Rightarrow> bool" where
  "tierInv quests remainingQuests processedQuestIds questTiers =
     (processedQuestIds = qid ` set (concat questTiers)
      \<and> distinct (concat questTiers @ remainingQuests)
      \<and> set (concat questTiers @ remainingQuests) = set quests
      \<and> (\<forall>t < length questTiers. \<forall>q \<in> set (questTiers ! t).
            depsBelow questTiers t q \<and> (\<forall>t' < t. \<not> depsBelow questTiers t' q))
      \<and> (\<forall>q \<in> set remainingQuests. \<forall>t' < length questTiers. \<not> depsBelow questTiers t' q))"

text \<open>The \<open>Quest\<close> object the second pass of \<open>main\<close> builds for one entry.\<close>

definition questOf :: "(string, string) js_map \<Rightarrow> string \<times> RawQuest \<Rightarrow> Quest" where
  "questOf titleToIdMap entry =
     \<lparr>qid = generateId (fst entry), title = fst entry, url = raw_url (snd entry),
      dependencies = dependencyIds titleToIdMap (snd entry)\<rparr>"

section \<open>The JavaScript \<open>Map\<close>\<close>

lemma map_of_map_set: "map_of (map_set k v m) = (map_of m)(k \<mapsto> v)"
  by (induction m) (auto simp: fun_eq_iff)

lemma keys_map_set: "fst ` set (map_set k v m) = insert k (fst ` set m)"
  using arg_cong[OF map_of_map_set[of k v m], of dom] by (simp add: dom_map_of_conv_image_fst)

lemma map_set_fresh: "k \<notin> fst ` set m \<Longrightarrow> map_set k v m = m @ [(k, v)]"
  by (induction m) auto

lemma distinct_map_set: "distinct (map fst m) \<Longrightarrow> distinct (map fst (map_set k v m))"
proof (induction m)
  case Nil
  then show ?case by simp
next
  case (Cons p m)
  obtain k' v' where p: "p = (k', v')" by (cases p)
  show ?case
  proof (cases "k' = k")
    case True
    then show ?thesis using Cons.prems p by simp
  next
    case False
    have "k' \<notin> fst ` set (map_set k v m)"
      using Cons.prems p False by (simp add: keys_map_set)
    then show ?thesis using Cons p False by simp
  qed
qed

lemma set_map_set: "(k', v') \<in> set (map_set k v m) \<Longrightarrow> (k', v') \<in> set m \<or> (k' = k \<and> v' = v)"
  by (induction m) (auto split: if_splits)

lemma foldl_map_set_keys:
  "fst ` set (foldl (\<lambda>m q. map_set (f q) q m) m0 qs) = fst ` set m0 \<union> f ` set qs"
  by (induction qs arbitrary: m0) (auto simp: keys_map_set)

lemma foldl_map_set_distinct:
  assumes "distinct (map f qs)" and "f ` set qs \<inter> fst ` set m0 = {}"
  shows "foldl (\<lambda>m q. map_set (f q) q m) m0 qs = m0 @ map (\<lambda>q. (f q, q)) qs"
  using assms
proof (induction qs arbitrary: m0)
  case Nil
  then show ?case by simp
next
  case (Cons q qs)
  have fresh: "f q \<notin> fst ` set m0" using Cons.prems(2) by auto
  have "f ` set qs \<inter> fst ` set (m0 @ [(f q, q)]) = {}"
    using Cons.prems by auto
  with Cons.IH[of "m0 @ [(f q, q)]"] Cons.prems(1) show ?case
    by (simp add: map_set_fresh[OF fresh])
qed

lemma foldl_map_set_entries:
  assumes "(k, q) \<in> set (foldl (\<lambda>m q. map_set (f q) q m) m0 qs)"
  shows "(k, q) \<in> set m0 \<or> (q \<in> set qs \<and> k = f q)"
  using assms
proof (induction qs arbitrary: m0)
  case Nil
  then show ?case by simp
next
  case (Cons a qs)
  from Cons.IH[of "map_set (f a) a m0"] Cons.prems
  have "(k, q) \<in> set (map_set (f a) a m0) \<or> (q \<in> set qs \<and> k = f q)" by simp
  then show ?case using set_map_set[of k q "f a" a m0] by auto
qed

section \<open>\<open>questMap\<close>\<close>

lemma questMap_distinct:
  "distinct (map qid (concat questTiers)) \<Longrightarrow>
     questMap questTiers = map (\<lambda>q. (qid q, q)) (concat questTiers)"
  unfolding questMap_def using foldl_map_set_distinct[of qid "concat questTiers" "[]"] by simp

lemma questMap_keys: "fst ` set (questMap questTiers) = qid ` set (concat questTiers)"
  unfolding questMap_def by (simp add: foldl_map_set_keys)

lemma questMap_get_absent:
  "questId \<notin> qid ` set (concat questTiers) \<Longrightarrow> map_get questId (questMap questTiers) = None"
  unfolding map_get_def by (simp add: map_of_eq_None_iff questMap_keys)

lemma questMap_get_distinct:
  assumes "distinct (map qid (concat questTiers))"
  shows "map_get a (questMap questTiers) = Some q \<longleftrightarrow> q \<in> set (concat questTiers) \<and> qid q = a"
proof -
  have d: "distinct (map fst (map (\<lambda>q. (qid q, q)) (concat questTiers)))"
    using assms by (simp add: comp_def)
  show ?thesis
    unfolding map_get_def questMap_distinct[OF assms] map_of_eq_Some_iff[OF d] by auto
qed

lemma questMap_values_distinct:
  "distinct (map qid (concat questTiers)) \<Longrightarrow> map_values (questMap questTiers) = concat questTiers"
  by (simp add: questMap_distinct map_values_def comp_def)

section \<open>The abstract worklist\<close>

lemma worklist_spec:
  assumes fin: "finite {a. succs a \<noteq> []}"
  shows "\<exists>v p. worklist succs queue seen processed = Some (v, p) \<and> seen \<union> set queue \<subseteq> v
           \<and> v \<subseteq> seen \<union> (edges succs)\<^sup>* `` set queue
           \<and> (\<forall>a \<in> v - seen. set (succs a) \<subseteq> v)
           \<and> (set processed = seen \<and> distinct processed \<longrightarrow> set p = v \<and> distinct p)"
proof (induction "(card ({a. succs a \<noteq> []} - seen), length queue)"
    arbitrary: queue seen processed
    rule: wf_induct_rule[OF wf_lex_prod[OF wf_less_than wf_less_than]])
  case less: 1
  let ?A = "{a. succs a \<noteq> []}"
  let ?E = "edges succs"
  show ?case
  proof (cases "queue = []")
    case True
    then show ?thesis by (subst worklist.simps) simp
  next
    case ne: False
    let ?c = "last queue"
    have q: "set queue = insert ?c (set (butlast queue))"
      using ne by (metis append_butlast_last_id list.simps(15) set_append Un_insert_right
          sup_bot.right_neutral empty_set)
    show ?thesis
    proof (cases "?c \<in> seen")
      case True
      have "((card (?A - seen), length (butlast queue)), (card (?A - seen), length queue))
              \<in> less_than <*lex*> less_than"
        using ne by simp
      from less[OF this, of processed] obtain v p where
        v: "worklist succs (butlast queue) seen processed = Some (v, p)"
        "seen \<union> set (butlast queue) \<subseteq> v" "v \<subseteq> seen \<union> ?E\<^sup>* `` set (butlast queue)"
        "\<forall>a \<in> v - seen. set (succs a) \<subseteq> v"
        "set processed = seen \<and> distinct processed \<longrightarrow> set p = v \<and> distinct p" by blast
      have "worklist succs queue seen processed = Some (v, p)"
        using ne True v(1) by (subst worklist.simps) simp
      moreover have "seen \<union> set queue \<subseteq> v" using v(2) True q by auto
      moreover have "v \<subseteq> seen \<union> ?E\<^sup>* `` set queue" using v(3) q by auto
      ultimately show ?thesis using v(4) v(5) by blast
    next
      case new: False
      have "((card (?A - insert ?c seen), length (butlast queue @ succs ?c)),
             (card (?A - seen), length queue)) \<in> less_than <*lex*> less_than"
      proof (cases "succs ?c = []")
        case True
        then have "?A - insert ?c seen = ?A - seen" by auto
        then show ?thesis using True ne by simp
      next
        case False
        then have "?c \<in> ?A - seen" using new by simp
        moreover have "finite (?A - seen)" using fin by simp
        ultimately have "card (?A - seen - {?c}) < card (?A - seen)"
          by (meson card_Diff1_less)
        moreover have "?A - insert ?c seen = ?A - seen - {?c}" by auto
        ultimately show ?thesis by simp
      qed
      from less[OF this, of "processed @ [?c]"] obtain v p where
        v: "worklist succs (butlast queue @ succs ?c) (insert ?c seen) (processed @ [?c])
              = Some (v, p)"
        "insert ?c seen \<union> set (butlast queue @ succs ?c) \<subseteq> v"
        "v \<subseteq> insert ?c seen \<union> ?E\<^sup>* `` set (butlast queue @ succs ?c)"
        "\<forall>a \<in> v - insert ?c seen. set (succs a) \<subseteq> v"
        "set (processed @ [?c]) = insert ?c seen \<and> distinct (processed @ [?c])
           \<longrightarrow> set p = v \<and> distinct p" by blast
      have 1: "worklist succs queue seen processed = Some (v, p)"
        using ne new v(1) by (subst worklist.simps) simp
      have 2: "seen \<union> set queue \<subseteq> v" using v(2) q by auto
      have "?E\<^sup>* `` set (succs ?c) \<subseteq> ?E\<^sup>* `` {?c}"
        by (auto simp: edges_def intro: converse_rtrancl_into_rtrancl)
      then have "?E\<^sup>* `` set (butlast queue @ succs ?c) \<subseteq> ?E\<^sup>* `` set queue"
        using q by auto
      moreover have "?c \<in> ?E\<^sup>* `` set queue" using q by blast
      ultimately have 3: "v \<subseteq> seen \<union> ?E\<^sup>* `` set queue" using v(3) by blast
      have 4: "\<forall>a \<in> v - seen. set (succs a) \<subseteq> v" using v(2) v(4) by auto
      have 5: "set processed = seen \<and> distinct processed \<longrightarrow> set p = v \<and> distinct p"
        using v(5) new by auto
      show ?thesis using 1 2 3 4 5 by blast
    qed
  qed
qed

lemma worklist_reach:
  assumes fin: "finite {a. succs a \<noteq> []}"
  shows "\<exists>p. worklist succs [x] {} [] = Some ((edges succs)\<^sup>* `` {x}, p)
           \<and> set p = (edges succs)\<^sup>* `` {x} \<and> distinct p"
proof -
  from worklist_spec[OF fin, of "[x]" "{}" "[]"] obtain v p where
    v: "worklist succs [x] {} [] = Some (v, p)" "x \<in> v" "v \<subseteq> (edges succs)\<^sup>* `` {x}"
    "\<forall>a \<in> v. set (succs a) \<subseteq> v" "set p = v" "distinct p" by auto
  have "y \<in> v" if "(x, y) \<in> (edges succs)\<^sup>*" for y
    using that
  proof (induction rule: rtrancl_induct)
    case base
    then show ?case by (rule v(2))
  next
    case (step y z)
    then show ?case using v(4) by (auto simp: edges_def)
  qed
  then have "v = (edges succs)\<^sup>* `` {x}" using v(3) by auto
  then show ?thesis using v(1) v(5) v(6) by simp
qed

section \<open>The loops of the source are worklists\<close>

lemma completeLoop_worklist:
  "worklist succs queue seen processed = Some r \<Longrightarrow>
     succs = prerequisitesOf qm \<longrightarrow>
       completeLoop qm queue seen = Some (fst r)
       \<and> completeLoopTrace qm queue seen processed = Some r"
proof (induction rule: worklist.raw_induct[rotated, consumes 1])
  case (1 wl succs queue seen processed r)
  show ?case
  proof
    assume s: "succs = prerequisitesOf qm"
    have a: "completeLoop qm queue seen = Some (fst r)"
      using 1 s
      by (subst completeLoop.simps)
         (auto simp: prerequisitesOf_def Let_def split: if_splits option.splits)
    have b: "completeLoopTrace qm queue seen processed = Some r"
      using 1 s
      by (subst completeLoopTrace.simps)
         (auto simp: prerequisitesOf_def Let_def split: if_splits option.splits)
    show "completeLoop qm queue seen = Some (fst r)
       \<and> completeLoopTrace qm queue seen processed = Some r"
      using a b by simp
  qed
qed

lemma uncompleteLoop_worklist:
  "worklist succs queue seen processed = Some r \<Longrightarrow>
     succs = dependantIdsOf qm \<longrightarrow>
       uncompleteLoop qm queue seen = Some (fst r)
       \<and> uncompleteLoopTrace qm queue seen processed = Some r"
proof (induction rule: worklist.raw_induct[rotated, consumes 1])
  case (1 wl succs queue seen processed r)
  show ?case
  proof
    assume s: "succs = dependantIdsOf qm"
    have a: "uncompleteLoop qm queue seen = Some (fst r)"
      using 1 s
      by (subst uncompleteLoop.simps)
         (auto simp: dependantIdsOf_def Let_def split: if_splits)
    have b: "uncompleteLoopTrace qm queue seen processed = Some r"
      using 1 s
      by (subst uncompleteLoopTrace.simps)
         (auto simp: dependantIdsOf_def Let_def split: if_splits)
    show "uncompleteLoop qm queue seen = Some (fst r)
       \<and> uncompleteLoopTrace qm queue seen processed = Some r"
      using a b by simp
  qed
qed

lemma finite_prerequisitesOf: "finite {a. prerequisitesOf qm a \<noteq> []}"
proof (rule finite_subset)
  show "{a. prerequisitesOf qm a \<noteq> []} \<subseteq> fst ` set qm"
    by (auto simp: prerequisitesOf_def map_get_def split: option.splits
        dest: map_of_SomeD intro: rev_image_eqI)
qed simp

lemma finite_dependantIdsOf: "finite {a. dependantIdsOf qm a \<noteq> []}"
proof (rule finite_subset)
  show "{a. dependantIdsOf qm a \<noteq> []} \<subseteq> (\<Union>q \<in> set (map_values qm). set (dependencies q))"
    by (auto simp: dependantIdsOf_def dependantsOf_def filter_empty_conv)
qed simp

lemma completeLoop_reach:
  "\<exists>p. completeLoopTrace qm [x] {} [] = Some ((edges (prerequisitesOf qm))\<^sup>* `` {x}, p)
      \<and> completeLoop qm [x] {} = Some ((edges (prerequisitesOf qm))\<^sup>* `` {x})
      \<and> set p = (edges (prerequisitesOf qm))\<^sup>* `` {x} \<and> distinct p"
proof -
  from worklist_reach[OF finite_prerequisitesOf, of qm x] obtain p where
    p: "worklist (prerequisitesOf qm) [x] {} [] = Some ((edges (prerequisitesOf qm))\<^sup>* `` {x}, p)"
    "set p = (edges (prerequisitesOf qm))\<^sup>* `` {x}" "distinct p" by blast
  from completeLoop_worklist[OF p(1), of qm] p(2) p(3) show ?thesis by simp
qed

lemma uncompleteLoop_reach:
  "\<exists>p. uncompleteLoopTrace qm [x] {} [] = Some ((edges (dependantIdsOf qm))\<^sup>* `` {x}, p)
      \<and> uncompleteLoop qm [x] {} = Some ((edges (dependantIdsOf qm))\<^sup>* `` {x})
      \<and> set p = (edges (dependantIdsOf qm))\<^sup>* `` {x} \<and> distinct p"
proof -
  from worklist_reach[OF finite_dependantIdsOf, of qm x] obtain p where
    p: "worklist (dependantIdsOf qm) [x] {} [] = Some ((edges (dependantIdsOf qm))\<^sup>* `` {x}, p)"
    "set p = (edges (dependantIdsOf qm))\<^sup>* `` {x}" "distinct p" by blast
  from uncompleteLoop_worklist[OF p(1), of qm] p(2) p(3) show ?thesis by simp
qed

section \<open>The graph the loops walk\<close>

lemma in_prerequisitesOf:
  "b \<in> set (prerequisitesOf qm a) \<longleftrightarrow> (\<exists>q. map_get a qm = Some q \<and> b \<in> set (dependencies q))"
  by (cases "map_get a qm") (simp_all add: prerequisitesOf_def)

lemma edges_prerequisitesOf:
  assumes "distinct (map qid (concat questTiers))"
  shows "edges (prerequisitesOf (questMap questTiers)) = dependsOn questTiers"
  unfolding edges_def dependsOn_def in_prerequisitesOf questMap_get_distinct[OF assms]
  by blast

lemma edges_dependantIdsOf:
  assumes "distinct (map qid (concat questTiers))"
  shows "edges (dependantIdsOf (questMap questTiers)) = (dependsOn questTiers)\<inverse>"
  unfolding edges_def dependsOn_def dependantIdsOf_def dependantsOf_def
    questMap_values_distinct[OF assms]
  by auto

lemma reach_minus_origin: "r\<^sup>* `` {x} - {x} = {b. (x, b) \<in> r\<^sup>+} - {x}"
  by (auto simp: rtrancl_eq_or_trancl)

lemma reach_converse: "(r\<inverse>)\<^sup>* `` {x} = insert x {a. (a, x) \<in> r\<^sup>+}"
  by (auto simp: rtrancl_converse rtrancl_eq_or_trancl)

lemma completeQuestPrerequisites_eq:
  "completeQuestPrerequisites questTiers questId completedQuests =
     Some (((edges (prerequisitesOf (questMap questTiers)))\<^sup>* `` {questId} - {questId})
           \<union> completedQuests)"
  using completeLoop_reach[of "questMap questTiers" questId]
  by (auto simp: completeQuestPrerequisites_def)

lemma uncompleteDependants_eq:
  "uncompleteDependants questTiers questId completedQuests =
     Some (completedQuests - (edges (dependantIdsOf (questMap questTiers)))\<^sup>* `` {questId})"
  using uncompleteLoop_reach[of "questMap questTiers" questId]
  by (auto simp: uncompleteDependants_def)

section \<open>Evaluations on the examples\<close>

lemma diamond_distinct: "distinct (map qid (concat diamond))"
  by (simp add: diamond_def)

lemma chain_distinct: "distinct (map qid (concat chain))"
  by (simp add: chain_def)

lemma diamond_complete_d:
  "completeQuestPrerequisites diamond ''d'' {} = Some {''a'', ''b'', ''c''}"
  by (simp add: completeQuestPrerequisites_def diamond_def questMap_def completeLoop.simps
      map_get_def) auto

lemma diamond_uncomplete_a:
  "uncompleteDependants diamond ''a'' {''a'', ''b'', ''c'', ''d''} = Some {}"
  by (simp add: uncompleteDependants_def diamond_def questMap_def uncompleteLoop.simps
      dependantsOf_def map_values_def)

lemma diamond_trace_d:
  "completeLoopTrace (questMap diamond) [''d''] {} [] =
     Some ({''a'', ''b'', ''c'', ''d''}, [''d'', ''c'', ''a'', ''b''])"
  by (simp add: diamond_def questMap_def completeLoopTrace.simps map_get_def)
     (auto simp: Let_def)

lemma diamond_untrace_a:
  "uncompleteLoopTrace (questMap diamond) [''a''] {} [] =
     Some ({''a'', ''b'', ''c'', ''d''}, [''a'', ''c'', ''d'', ''b''])"
  by (simp add: diamond_def questMap_def uncompleteLoopTrace.simps dependantsOf_def
      map_values_def)
     (auto simp: Let_def)

section \<open>Claims about the runtime\<close>

text \<open>
  Claim C1. In a catalog whose quest ids are unique, \<open>completeQuestPrerequisites\<close>
  returns, for every quest id and every completed set, and the new completed set is the
  old one together with the strict transitive prerequisites of the id: the ids reachable
  from it along one or more dependency edges, the id itself left out. The id is in the
  new set only if it was in the old one, and nothing is removed.
\<close>

theorem completeQuestPrerequisites_adds_strict_prerequisites:
  assumes "distinct (map qid (concat questTiers))"
  shows "\<exists>result. completeQuestPrerequisites questTiers questId completedQuests = Some result
           \<and> result = completedQuests \<union> strictPrerequisites questTiers questId
           \<and> (questId \<in> result \<longrightarrow> questId \<in> completedQuests)
           \<and> completedQuests \<subseteq> result"
  unfolding completeQuestPrerequisites_eq edges_prerequisitesOf[OF assms] reach_minus_origin
    strictPrerequisites_def
  by auto

theorem completeQuestPrerequisites_adds_strict_prerequisites_witness:
  "distinct (map qid (concat diamond))
   \<and> completeQuestPrerequisites diamond ''d'' {} = Some {''a'', ''b'', ''c''}
   \<and> strictPrerequisites diamond ''d'' = {''a'', ''b'', ''c''}"
  using completeQuestPrerequisites_adds_strict_prerequisites[OF diamond_distinct, of "''d''" "{}"]
    diamond_distinct diamond_complete_d
  by simp

text \<open>
  Claim C2. In a catalog whose quest ids are unique, \<open>uncompleteDependants\<close> returns, for
  every quest id and every completed set, and the new completed set is the old one
  without the id and without every quest that depends on it along one or more
  dependency edges. Being a set difference, it leaves the membership of every other id
  as it was.
\<close>

theorem uncompleteDependants_removes_self_and_dependants:
  assumes "distinct (map qid (concat questTiers))"
  shows "uncompleteDependants questTiers questId completedQuests =
           Some (completedQuests - selfAndDependants questTiers questId)"
  unfolding uncompleteDependants_eq edges_dependantIdsOf[OF assms] reach_converse
    selfAndDependants_def
  by simp

theorem uncompleteDependants_removes_self_and_dependants_witness:
  "distinct (map qid (concat diamond))
   \<and> uncompleteDependants diamond ''a'' {''a'', ''b'', ''c'', ''d''} = Some {}
   \<and> {''a'', ''b'', ''c'', ''d''} \<subseteq> selfAndDependants diamond ''a''"
  using uncompleteDependants_removes_self_and_dependants[OF diamond_distinct, of "''a''"
      "{''a'', ''b'', ''c'', ''d''}"]
    diamond_distinct diamond_uncomplete_a
  by auto

text \<open>
  Claim C7. For every catalog, quest id and completed set, running
  \<open>completeQuestPrerequisites\<close> on its own result gives that result again.
\<close>

theorem completeQuestPrerequisites_idempotent:
  "\<exists>once. completeQuestPrerequisites questTiers questId completedQuests = Some once
      \<and> completeQuestPrerequisites questTiers questId once = Some once"
  unfolding completeQuestPrerequisites_eq by auto

theorem completeQuestPrerequisites_idempotent_witness:
  "completeQuestPrerequisites diamond ''d'' {} = Some {''a'', ''b'', ''c''}
   \<and> completeQuestPrerequisites diamond ''d'' {''a'', ''b'', ''c''} = Some {''a'', ''b'', ''c''}"
  using completeQuestPrerequisites_idempotent[of diamond "''d''" "{}"] diamond_complete_d
  by simp

text \<open>
  Claim C10. For an id that no quest of the catalog has, the loop of
  \<open>completeQuestPrerequisites\<close> discovers the origin alone, and the completed set comes
  back unchanged.
\<close>

theorem completeQuestPrerequisites_unknown_id:
  assumes "questId \<notin> qid ` set (concat questTiers)"
  shows "completeLoop (questMap questTiers) [questId] {} = Some {questId}
       \<and> completeQuestPrerequisites questTiers questId completedQuests = Some completedQuests"
proof -
  have none: "map_get questId (questMap questTiers) = None"
    using assms by (rule questMap_get_absent)
  have loop: "completeLoop (questMap questTiers) [questId] {} = Some {questId}"
    by (subst completeLoop.simps, simp add: none, subst completeLoop.simps, simp)
  then show ?thesis by (simp add: completeQuestPrerequisites_def)
qed

theorem completeQuestPrerequisites_unknown_id_witness:
  "''lost_in_transmission'' \<notin> qid ` set (concat diamond)
   \<and> completeLoop (questMap diamond) [''lost_in_transmission''] {} = Some {''lost_in_transmission''}
   \<and> completeQuestPrerequisites diamond ''lost_in_transmission'' {''a''} = Some {''a''}"
proof -
  have h: "''lost_in_transmission'' \<notin> qid ` set (concat diamond)"
    by (simp add: diamond_def)
  show ?thesis
    using h completeQuestPrerequisites_unknown_id[OF h, of "{''a''}"] by simp
qed

text \<open>
  Claim C6. In a catalog whose quest ids are unique, \<open>anyDependantCompleted\<close> holds of a
  quest exactly when some quest of the catalog lists its id among its own dependencies
  and is completed. Quests further down the chain are not looked at.
\<close>

theorem anyDependantCompleted_direct_only:
  assumes "distinct (map qid (concat questTiers))"
  shows "anyDependantCompleted questTiers completedQuests quest \<longleftrightarrow>
           (\<exists>dep \<in> set (concat questTiers).
              qid quest \<in> set (dependencies dep) \<and> qid dep \<in> completedQuests)"
  unfolding anyDependantCompleted_def dependantsOf_def questMap_values_distinct[OF assms]
  by (auto simp: list_ex_iff)

theorem anyDependantCompleted_direct_only_witness:
  "distinct (map qid (concat chain))
   \<and> \<not> anyDependantCompleted chain {''c''}
         \<lparr>qid = ''a'', title = ''A'', url = ''/wiki/A'', dependencies = []\<rparr>
   \<and> anyDependantCompleted chain {''c''}
         \<lparr>qid = ''b'', title = ''B'', url = ''/wiki/B'', dependencies = [''a'']\<rparr>"
  using chain_distinct
    anyDependantCompleted_direct_only[OF chain_distinct, of "{''c''}"
      "\<lparr>qid = ''a'', title = ''A'', url = ''/wiki/A'', dependencies = []\<rparr>"]
    anyDependantCompleted_direct_only[OF chain_distinct, of "{''c''}"
      "\<lparr>qid = ''b'', title = ''B'', url = ''/wiki/B'', dependencies = [''a'']\<rparr>"]
  by (simp add: chain_def)

text \<open>
  Claim C9. On every catalog, acyclic or not, and from every quest id, both worklist
  loops leave with a result, and so do the two operations built on them. The ids the
  loop body expanded, in order, are exactly the discovered set, each of them once.
\<close>

theorem traversals_terminate:
  "(\<exists>seen processed.
       completeLoopTrace (questMap questTiers) [questId] {} [] = Some (seen, processed)
       \<and> completeLoop (questMap questTiers) [questId] {} = Some seen
       \<and> set processed = seen \<and> distinct processed)
   \<and> (\<exists>seen processed.
       uncompleteLoopTrace (questMap questTiers) [questId] {} [] = Some (seen, processed)
       \<and> uncompleteLoop (questMap questTiers) [questId] {} = Some seen
       \<and> set processed = seen \<and> distinct processed)
   \<and> (\<exists>result. completeQuestPrerequisites questTiers questId completedQuests = Some result)
   \<and> (\<exists>result. uncompleteDependants questTiers questId completedQuests = Some result)"
proof -
  obtain p where p:
    "completeLoopTrace (questMap questTiers) [questId] {} [] =
       Some ((edges (prerequisitesOf (questMap questTiers)))\<^sup>* `` {questId}, p)"
    "completeLoop (questMap questTiers) [questId] {} =
       Some ((edges (prerequisitesOf (questMap questTiers)))\<^sup>* `` {questId})"
    "set p = (edges (prerequisitesOf (questMap questTiers)))\<^sup>* `` {questId}" "distinct p"
    using completeLoop_reach[of "questMap questTiers" questId] by blast
  obtain u where u:
    "uncompleteLoopTrace (questMap questTiers) [questId] {} [] =
       Some ((edges (dependantIdsOf (questMap questTiers)))\<^sup>* `` {questId}, u)"
    "uncompleteLoop (questMap questTiers) [questId] {} =
       Some ((edges (dependantIdsOf (questMap questTiers)))\<^sup>* `` {questId})"
    "set u = (edges (dependantIdsOf (questMap questTiers)))\<^sup>* `` {questId}" "distinct u"
    using uncompleteLoop_reach[of "questMap questTiers" questId] by blast
  show ?thesis
    using p u by (simp add: completeQuestPrerequisites_eq uncompleteDependants_eq)
qed

theorem traversals_terminate_witness:
  "completeLoopTrace (questMap diamond) [''d''] {} [] =
     Some ({''a'', ''b'', ''c'', ''d''}, [''d'', ''c'', ''a'', ''b''])
   \<and> completeLoop (questMap diamond) [''d''] {} = Some {''a'', ''b'', ''c'', ''d''}
   \<and> uncompleteLoopTrace (questMap diamond) [''a''] {} [] =
     Some ({''a'', ''b'', ''c'', ''d''}, [''a'', ''c'', ''d'', ''b''])
   \<and> uncompleteLoop (questMap diamond) [''a''] {} = Some {''a'', ''b'', ''c'', ''d''}"
  using traversals_terminate[of diamond "''d''" "{}"] traversals_terminate[of diamond "''a''" "{}"]
    diamond_trace_d diamond_untrace_a
  by simp

section \<open>Hydration\<close>

text \<open>
  Claim C8. \<open>onMounted\<close> never lets an exception out, whatever the storage holds and
  whatever state it starts from. From the initial state, a key that is absent, a value
  that is not JSON, the JSON value \<open>null\<close> and any JSON value that is not an array all
  leave the completed set empty; a JSON array replaces the set by its elements.
\<close>

theorem onMounted_tolerates_bad_storage:
  "(\<exists>st. onMounted JSON_parse getItem st0 = Inr st)
   \<and> (getItem = Inr None \<longrightarrow>
        (\<exists>st. onMounted JSON_parse getItem initialState = Inr st \<and> completedQuestsValue st = {}))
   \<and> (getItem = Inr (Some s) \<and> JSON_parse s = Inl e \<longrightarrow>
        (\<exists>st. onMounted JSON_parse getItem initialState = Inr st \<and> completedQuestsValue st = {}))
   \<and> (getItem = Inr (Some s) \<and> JSON_parse s = Inr JNull \<longrightarrow>
        (\<exists>st. onMounted JSON_parse getItem initialState = Inr st \<and> completedQuestsValue st = {}))
   \<and> (getItem = Inr (Some s) \<and> JSON_parse s = Inr v \<and> \<not> isArray v \<longrightarrow>
        (\<exists>st. onMounted JSON_parse getItem initialState = Inr st \<and> completedQuestsValue st = {}))
   \<and> (getItem = Inr (Some s) \<and> s \<noteq> [] \<and> JSON_parse s = Inr (JArray xs) \<longrightarrow>
        (\<exists>st. onMounted JSON_parse getItem initialState = Inr st
              \<and> completedQuestsValue st = set xs))"
  by (auto simp: onMounted_def loadProgress_def initialState_def isArray_def Let_def
      split: sum.splits option.splits json.splits)

theorem onMounted_tolerates_bad_storage_witness:
  "(\<exists>st. onMounted parseSample (Inl SecurityError) initialState = Inr st)
   \<and> (\<exists>st. onMounted parseSample (Inr None) initialState = Inr st
          \<and> completedQuestsValue st = {})
   \<and> (\<exists>st. onMounted parseSample (Inr (Some ''not json'')) initialState = Inr st
          \<and> completedQuestsValue st = {})
   \<and> (\<exists>st. onMounted parseSample (Inr (Some ''null'')) initialState = Inr st
          \<and> completedQuestsValue st = {})
   \<and> (\<exists>st. onMounted parseSample (Inr (Some ''{}'')) initialState = Inr st
          \<and> completedQuestsValue st = {})
   \<and> (\<exists>st. onMounted parseSample (Inr (Some ''[7]'')) initialState = Inr st
          \<and> completedQuestsValue st = {JNumber 7})"
  using
    onMounted_tolerates_bad_storage[of parseSample "Inl SecurityError" initialState]
    onMounted_tolerates_bad_storage[of parseSample "Inr None"]
    onMounted_tolerates_bad_storage[of parseSample "Inr (Some ''not json'')" _ "''not json''"
      SyntaxError]
    onMounted_tolerates_bad_storage[of parseSample "Inr (Some ''null'')" _ "''null''"]
    onMounted_tolerates_bad_storage[of parseSample "Inr (Some ''{}'')" _ "''{}''" _ "JObject []"]
    onMounted_tolerates_bad_storage[of parseSample "Inr (Some ''[7]'')" _ "''[7]''" _ _
      "[JNumber 7]"]
  by (simp add: parseSample_def isArray_def)

section \<open>The two passes of \<open>main\<close>\<close>

lemma titleToIdMap_fold:
  "map_of (snd (foldl (\<lambda>(console, titleToIdMap) t.
              ((if map_has t titleToIdMap
                then console @ [Warn (''Duplicate title found (will be overwritten): '' @ t)]
                else console),
               map_set t (generateId t) titleToIdMap)) (c, m) ts)) t
   = (if t \<in> set ts then Some (generateId t) else map_of m t)"
  by (induction ts arbitrary: c m) (auto simp: map_of_map_set)

lemma buildTitleToIdMap_get:
  "map_get t (snd (buildTitleToIdMap ts)) = (if t \<in> set ts then Some (generateId t) else None)"
  unfolding buildTitleToIdMap_def map_get_def by (simp add: titleToIdMap_fold)

lemma titleToIdMap_fold_quiet:
  assumes "distinct ts" and "set ts \<inter> fst ` set m = {}"
  shows "fst (foldl (\<lambda>(console, titleToIdMap) t.
              ((if map_has t titleToIdMap
                then console @ [Warn (''Duplicate title found (will be overwritten): '' @ t)]
                else console),
               map_set t (generateId t) titleToIdMap)) (c, m) ts) = c"
  using assms
proof (induction ts arbitrary: c m)
  case Nil
  then show ?case by simp
next
  case (Cons t ts)
  have fresh: "\<not> map_has t m"
    using Cons.prems(2) by (auto simp: map_has_def map_get_def map_of_eq_None_iff)
  have "set ts \<inter> fst ` set (map_set t (generateId t) m) = {}"
    using Cons.prems by (auto simp: keys_map_set)
  with Cons.IH[of "map_set t (generateId t) m" c] Cons.prems(1) fresh show ?case by simp
qed

lemma buildTitleToIdMap_quiet: "distinct ts \<Longrightarrow> fst (buildTitleToIdMap ts) = []"
  unfolding buildTitleToIdMap_def using titleToIdMap_fold_quiet[of ts "[]" "[]"] by simp

lemma buildAllQuests_questMap:
  assumes "tm = snd (buildTitleToIdMap (map fst questMapRaw))"
  shows "buildAllQuests tm questMapRaw = questMap [map (questOf tm) questMapRaw]"
proof -
  have step: "(case map_get (fst e) tm of
                 None \<Rightarrow> m
               | Some i \<Rightarrow> map_set i \<lparr>qid = i, title = fst e, url = raw_url (snd e),
                     dependencies = dependencyIds tm (snd e)\<rparr> m)
              = map_set (qid (questOf tm e)) (questOf tm e) m"
    if "e \<in> set questMapRaw" for e and m :: "(string, Quest) js_map"
    using that unfolding assms by (simp add: buildTitleToIdMap_get questOf_def)
  have "foldl (\<lambda>allQuests (t, questData).
              case map_get t tm of
                None \<Rightarrow> allQuests
              | Some i \<Rightarrow>
                  map_set i
                    \<lparr>qid = i, title = t, url = raw_url questData,
                     dependencies = dependencyIds tm questData\<rparr>
                    allQuests) m0 es
        = foldl (\<lambda>m e. map_set (qid (questOf tm e)) (questOf tm e) m) m0 es"
    if "set es \<subseteq> set questMapRaw" for es m0
    using that
  proof (induction es arbitrary: m0)
    case Nil
    then show ?case by simp
  next
    case (Cons e es)
    then show ?case using step[of e m0] by (simp add: case_prod_beta)
  qed
  then show ?thesis
    unfolding buildAllQuests_def questMap_def by (simp add: foldl_map)
qed

lemma questsToSort_questMap:
  "questsToSort questMapRaw =
     map_values (questMap [map (questOf (snd (buildTitleToIdMap (map fst questMapRaw))))
                             questMapRaw])"
  unfolding questsToSort_def by (simp add: buildAllQuests_questMap)

lemma questMap_entries:
  "(k, q) \<in> set (questMap questTiers) \<Longrightarrow> q \<in> set (concat questTiers) \<and> k = qid q"
  unfolding questMap_def using foldl_map_set_entries[of k q qid "[]" "concat questTiers"] by simp

lemma questMap_distinct_keys: "distinct (map fst (questMap questTiers))"
proof -
  have "distinct (map fst (foldl (\<lambda>m q. map_set (qid q) q m) m0 qs))"
    if "distinct (map fst m0)" for m0 :: "(string, Quest) js_map" and qs
    using that by (induction qs arbitrary: m0) (simp_all add: distinct_map_set)
  then show ?thesis unfolding questMap_def by simp
qed

lemma questMap_values_ids: "map qid (map_values (questMap questTiers)) = map fst (questMap questTiers)"
  unfolding map_values_def using questMap_entries[of _ _ questTiers] by auto

lemma questsToSort_distinct: "distinct (map qid (questsToSort questMapRaw))"
  unfolding questsToSort_questMap questMap_values_ids by (rule questMap_distinct_keys)

lemma questsToSort_ids:
  "qid ` set (questsToSort questMapRaw) = generateId ` fst ` set questMapRaw"
proof -
  have "qid ` set (questsToSort questMapRaw) = set (map qid (questsToSort questMapRaw))"
    by simp
  also have "\<dots> = fst ` set (questMap [map (questOf (snd (buildTitleToIdMap (map fst questMapRaw))))
                             questMapRaw])"
    unfolding questsToSort_questMap questMap_values_ids by simp
  also have "\<dots> = generateId ` fst ` set questMapRaw"
    unfolding questMap_keys by (simp add: image_image questOf_def)
  finally show ?thesis .
qed

lemma questsToSort_closed:
  assumes "q \<in> set (questsToSort questMapRaw)"
  shows "set (dependencies q) \<subseteq> qid ` set (questsToSort questMapRaw)"
proof
  fix d assume d: "d \<in> set (dependencies q)"
  let ?tm = "snd (buildTitleToIdMap (map fst questMapRaw))"
  from assms obtain k where "(k, q) \<in> set (questMap [map (questOf ?tm) questMapRaw])"
    unfolding questsToSort_questMap map_values_def by auto
  then obtain e where e: "e \<in> set questMapRaw" "q = questOf ?tm e"
    using questMap_entries by fastforce
  from d e(2) have "d \<in> set (dependencyIds ?tm (snd e))" by (simp add: questOf_def)
  then obtain depTitle where "map_get depTitle ?tm = Some d"
    unfolding dependencyIds_def by (auto split: option.splits)
  then have "depTitle \<in> fst ` set questMapRaw" "d = generateId depTitle"
    by (auto simp: buildTitleToIdMap_get split: if_splits)
  then show "d \<in> qid ` set (questsToSort questMapRaw)"
    unfolding questsToSort_ids by blast
qed

lemma main_result:
  "snd (main (Some questMapRaw)) = snd (tierLoop (questsToSort questMapRaw) {} [])"
proof -
  obtain w tm where b: "buildTitleToIdMap (map fst questMapRaw) = (w, tm)"
    by (cases "buildTitleToIdMap (map fst questMapRaw)")
  obtain errs sorted where
    t: "tierLoop (map_values (buildAllQuests tm questMapRaw)) {} [] = (errs, sorted)"
    by (cases "tierLoop (map_values (buildAllQuests tm questMapRaw)) {} []")
  show ?thesis
    unfolding main_def questsToSort_def by (cases sorted) (simp_all add: b t)
qed

lemma main_console_abort:
  assumes "snd (tierLoop (questsToSort questMapRaw) {} []) = None"
  shows "fst (main (Some questMapRaw)) =
           [Log ''Reading questData.json...''] @ fst (buildTitleToIdMap (map fst questMapRaw))
           @ [Log ''Sorting quests into tiers...'']
           @ fst (tierLoop (questsToSort questMapRaw) {} [])"
proof -
  obtain w tm where b: "buildTitleToIdMap (map fst questMapRaw) = (w, tm)"
    by (cases "buildTitleToIdMap (map fst questMapRaw)")
  obtain errs sorted where
    t: "tierLoop (map_values (buildAllQuests tm questMapRaw)) {} [] = (errs, sorted)"
    by (cases "tierLoop (map_values (buildAllQuests tm questMapRaw)) {} []")
  have "sorted = None" using assms by (simp add: questsToSort_def b t)
  then show ?thesis
    unfolding main_def questsToSort_def by (simp add: b t)
qed

section \<open>The tier loop\<close>

lemma depsMet_subset: "depsMet processedQuestIds q \<longleftrightarrow> set (dependencies q) \<subseteq> processedQuestIds"
  by (auto simp: depsMet_def list_all_iff)

lemma in_concat_nth: "x \<in> set (concat xss) \<longleftrightarrow> (\<exists>s < length xss. x \<in> set (xss ! s))"
proof
  assume "x \<in> set (concat xss)"
  then obtain xs where "xs \<in> set xss" "x \<in> set xs" by auto
  then show "\<exists>s < length xss. x \<in> set (xss ! s)" by (metis in_set_conv_nth)
next
  assume "\<exists>s < length xss. x \<in> set (xss ! s)"
  then obtain s where "s < length xss" "x \<in> set (xss ! s)" by blast
  then show "x \<in> set (concat xss)" using nth_mem by fastforce
qed

lemma depsBelow_length:
  "depsBelow questTiers (length questTiers) q \<longleftrightarrow>
     set (dependencies q) \<subseteq> qid ` set (concat questTiers)"
proof -
  have iff: "(\<exists>s < length questTiers. s < length questTiers \<and> d \<in> qid ` set (questTiers ! s))
        \<longleftrightarrow> d \<in> qid ` set (concat questTiers)" for d
  proof
    assume "\<exists>s < length questTiers. s < length questTiers \<and> d \<in> qid ` set (questTiers ! s)"
    then obtain s x where sx: "s < length questTiers" "x \<in> set (questTiers ! s)" "d = qid x"
      by blast
    then have "x \<in> set (concat questTiers)" using in_concat_nth[of x questTiers] by blast
    then show "d \<in> qid ` set (concat questTiers)" using sx(3) by (rule image_eqI[rotated])
  next
    assume "d \<in> qid ` set (concat questTiers)"
    then obtain x where x: "x \<in> set (concat questTiers)" "d = qid x" by (rule imageE)
    then obtain s where "s < length questTiers" "x \<in> set (questTiers ! s)"
      using in_concat_nth[of x questTiers] by blast
    then show "\<exists>s < length questTiers. s < length questTiers \<and> d \<in> qid ` set (questTiers ! s)"
      using x(2) by blast
  qed
  show ?thesis unfolding depsBelow_def iff by blast
qed

lemma depsBelow_append:
  assumes "t \<le> length questTiers"
  shows "depsBelow (questTiers @ [tier]) t q \<longleftrightarrow> depsBelow questTiers t q"
proof -
  have "(s < length (questTiers @ [tier]) \<and> d \<in> qid ` set ((questTiers @ [tier]) ! s))
        \<longleftrightarrow> (s < length questTiers \<and> d \<in> qid ` set (questTiers ! s))" if "s < t" for s d
    using that assms by (simp add: nth_append)
  then show ?thesis unfolding depsBelow_def by blast
qed

lemma depsBelow_mono:
  assumes "depsBelow questTiers t q" and "t \<le> t'"
  shows "depsBelow questTiers t' q"
  unfolding depsBelow_def
proof
  fix d assume "d \<in> set (dependencies q)"
  then obtain s where "s < t" "s < length questTiers" "d \<in> qid ` set (questTiers ! s)"
    using assms(1) unfolding depsBelow_def by blast
  moreover have "s < t'" using \<open>s < t\<close> assms(2) by simp
  ultimately show "\<exists>s < t'. s < length questTiers \<and> d \<in> qid ` set (questTiers ! s)" by blast
qed

lemma tierInv_init: "distinct quests \<Longrightarrow> tierInv quests quests {} []"
  by (simp add: tierInv_def)

lemma tierInv_step:
  assumes inv: "tierInv quests remainingQuests processedQuestIds questTiers"
    and cur: "currentTier = filter (depsMet processedQuestIds) remainingQuests"
    and nxt: "questsForNextRound = filter (\<lambda>q. \<not> depsMet processedQuestIds q) remainingQuests"
  shows "tierInv quests questsForNextRound (processedQuestIds \<union> qid ` set currentTier)
           (questTiers @ [currentTier])"
proof -
  let ?n = "length questTiers"
  from inv have
    p: "processedQuestIds = qid ` set (concat questTiers)" and
    d: "distinct (concat questTiers @ remainingQuests)" and
    s: "set (concat questTiers @ remainingQuests) = set quests" and
    placed: "\<forall>t < ?n. \<forall>q \<in> set (questTiers ! t).
               depsBelow questTiers t q \<and> (\<forall>t' < t. \<not> depsBelow questTiers t' q)" and
    rest: "\<forall>q \<in> set remainingQuests. \<forall>t' < ?n. \<not> depsBelow questTiers t' q"
    unfolding tierInv_def by blast+
  have met: "depsMet processedQuestIds q \<longleftrightarrow> depsBelow questTiers ?n q" for q
    unfolding depsMet_subset depsBelow_length p ..
  have 1: "processedQuestIds \<union> qid ` set currentTier = qid ` set (concat (questTiers @ [currentTier]))"
    using p by auto
  have "distinct (currentTier @ questsForNextRound)"
    using d unfolding cur nxt by auto
  moreover have split: "set currentTier \<union> set questsForNextRound = set remainingQuests"
    unfolding cur nxt by auto
  ultimately have 2: "distinct (concat (questTiers @ [currentTier]) @ questsForNextRound)"
    using d by auto
  have 3: "set (concat (questTiers @ [currentTier]) @ questsForNextRound) = set quests"
    using s split by auto
  have 4: "depsBelow (questTiers @ [currentTier]) t q
           \<and> (\<forall>t' < t. \<not> depsBelow (questTiers @ [currentTier]) t' q)"
    if t: "t < length (questTiers @ [currentTier])" and q: "q \<in> set ((questTiers @ [currentTier]) ! t)"
    for t q
  proof (cases "t < ?n")
    case True
    then have "q \<in> set (questTiers ! t)" using q by (simp add: nth_append)
    with placed True have "depsBelow questTiers t q" "\<forall>t' < t. \<not> depsBelow questTiers t' q"
      by blast+
    then show ?thesis using True by (simp add: depsBelow_append)
  next
    case False
    then have tn: "t = ?n" using t by simp
    then have qc: "q \<in> set currentTier" using q by simp
    then have "depsMet processedQuestIds q" "q \<in> set remainingQuests" unfolding cur by auto
    then have "depsBelow questTiers ?n q" "\<forall>t' < ?n. \<not> depsBelow questTiers t' q"
      using met rest by blast+
    then show ?thesis using tn by (simp add: depsBelow_append)
  qed
  have 5: "\<not> depsBelow (questTiers @ [currentTier]) t' q"
    if q: "q \<in> set questsForNextRound" and t': "t' < length (questTiers @ [currentTier])" for q t'
  proof -
    from q have "\<not> depsMet processedQuestIds q" "q \<in> set remainingQuests" unfolding nxt by auto
    then have "\<not> depsBelow questTiers ?n q" using met by blast
    moreover have "t' \<le> ?n" using t' by simp
    ultimately have "\<not> depsBelow questTiers t' q" using depsBelow_mono by blast
    then show ?thesis using \<open>t' \<le> ?n\<close> by (simp add: depsBelow_append)
  qed
  show ?thesis
    unfolding tierInv_def
    by (intro conjI allI impI ballI; (rule 1 | rule 2 | rule 3 | (use 4 5 in blast)))
qed

lemma tierInv_progress:
  assumes inv: "tierInv quests remainingQuests processedQuestIds questTiers"
    and acyc: "acyclic {(a, b). \<exists>q \<in> set quests. qid q = a \<and> b \<in> set (dependencies q)}"
    and closed: "\<forall>q \<in> set quests. set (dependencies q) \<subseteq> qid ` set quests"
    and ne: "remainingQuests \<noteq> []"
  shows "filter (depsMet processedQuestIds) remainingQuests \<noteq> []"
proof -
  let ?r = "{(a, b). \<exists>q \<in> set quests. qid q = a \<and> b \<in> set (dependencies q)}"
  from inv have
    p: "processedQuestIds = qid ` set (concat questTiers)" and
    s: "set (concat questTiers @ remainingQuests) = set quests"
    unfolding tierInv_def by blast+
  have "?r \<subseteq> qid ` set quests \<times> (\<Union>q \<in> set quests. set (dependencies q))" by auto
  then have "finite ?r" by (rule finite_subset) simp
  then have wf: "wf (?r\<inverse>)" using acyc by (rule finite_acyclic_wf_converse)
  from ne obtain q0 where "q0 \<in> set remainingQuests" by (cases remainingQuests) auto
  then have "qid q0 \<in> qid ` set remainingQuests" by simp
  from wfE_min[OF wf this] obtain z where
    z: "z \<in> qid ` set remainingQuests" "\<And>y. (y, z) \<in> ?r\<inverse> \<Longrightarrow> y \<notin> qid ` set remainingQuests"
    by blast
  from z(1) obtain q where q: "q \<in> set remainingQuests" "z = qid q" by auto
  have qq: "q \<in> set quests" using q(1) s by auto
  have "d \<in> processedQuestIds" if d: "d \<in> set (dependencies q)" for d
  proof -
    have "(d, z) \<in> ?r\<inverse>" using d qq q(2) by auto
    then have "d \<notin> qid ` set remainingQuests" by (rule z(2))
    moreover have "d \<in> qid ` set quests" using closed qq d by blast
    moreover have "set quests = set (concat questTiers) \<union> set remainingQuests"
      using s by simp
    ultimately show ?thesis unfolding p by blast
  qed
  then have "depsMet processedQuestIds q" unfolding depsMet_subset by blast
  then show ?thesis using q(1) by (auto simp: filter_empty_conv)
qed

lemma tierLoop_sorts:
  assumes acyc: "acyclic {(a, b). \<exists>q \<in> set quests. qid q = a \<and> b \<in> set (dependencies q)}"
    and closed: "\<forall>q \<in> set quests. set (dependencies q) \<subseteq> qid ` set quests"
  shows "tierInv quests remainingQuests processedQuestIds questTiers \<Longrightarrow>
         \<exists>tiers. tierLoop remainingQuests processedQuestIds questTiers = ([], Some tiers)
                \<and> tierInv quests [] (qid ` set (concat tiers)) tiers"
proof (induction remainingQuests processedQuestIds questTiers rule: tierLoop.induct)
  case (1 remainingQuests processedQuestIds questTiers)
  show ?case
  proof (cases "remainingQuests = []")
    case True
    moreover have "processedQuestIds = qid ` set (concat questTiers)"
      using "1.prems" unfolding tierInv_def by blast
    ultimately show ?thesis using "1.prems" by (subst tierLoop.simps) simp
  next
    case ne: False
    let ?cur = "filter (depsMet processedQuestIds) remainingQuests"
    let ?nxt = "filter (\<lambda>q. \<not> depsMet processedQuestIds q) remainingQuests"
    have cur: "?cur \<noteq> []" using tierInv_progress[OF "1.prems" acyc closed ne] .
    have inv': "tierInv quests ?nxt (processedQuestIds \<union> qid ` set ?cur) (questTiers @ [?cur])"
      using tierInv_step[OF "1.prems"] by simp
    from "1.IH"[OF ne refl refl _ inv'] cur obtain tiers where
      "tierLoop ?nxt (processedQuestIds \<union> qid ` set ?cur) (questTiers @ [?cur]) = ([], Some tiers)"
      "tierInv quests [] (qid ` set (concat tiers)) tiers" by blast
    then show ?thesis using ne cur by (subst tierLoop.simps) (simp add: Let_def)
  qed
qed

lemma distinct_concat_index:
  assumes "distinct (concat xss)" "i < length xss" "j < length xss"
    "x \<in> set (xss ! i)" "x \<in> set (xss ! j)"
  shows "i = j"
  using assms
proof (induction xss arbitrary: i j)
  case Nil
  then show ?case by simp
next
  case (Cons xs xss)
  have "set xs \<inter> set (concat xss) = {}" using Cons.prems(1) by simp
  then have out: "x \<in> set xs \<Longrightarrow> k < length xss \<Longrightarrow> x \<in> set (xss ! k) \<Longrightarrow> False" for k
    using in_concat_nth[of x xss] by blast
  show ?case
  proof (cases i)
    case i0: 0
    show ?thesis
    proof (cases j)
      case 0
      then show ?thesis using i0 by simp
    next
      case (Suc j')
      then show ?thesis using i0 Cons.prems out[of j'] by auto
    qed
  next
    case (Suc i')
    show ?thesis
    proof (cases j)
      case 0
      then show ?thesis using Suc Cons.prems out[of i'] by auto
    next
      case j: (Suc j')
      have "i' = j'" using Cons.IH[of i' j'] Cons.prems Suc j by auto
      then show ?thesis using Suc j by simp
    qed
  qed
qed

section \<open>A cycle stops the tier loop\<close>

lemma reachesCycle_step:
  assumes "x \<in> reachesCycle r"
  shows "\<exists>z. (x, z) \<in> r \<and> z \<in> reachesCycle r"
proof -
  from assms obtain c where c: "(x, c) \<in> r\<^sup>*" "(c, c) \<in> r\<^sup>+"
    unfolding reachesCycle_def by blast
  show ?thesis
  proof (cases "x = c")
    case True
    from c(2) obtain z where z: "(c, z) \<in> r" "(z, c) \<in> r\<^sup>*" by (meson tranclD)
    then have "z \<in> reachesCycle r" using c(2) unfolding reachesCycle_def by blast
    then show ?thesis using z(1) True by blast
  next
    case False
    with c(1) obtain z where z: "(x, z) \<in> r" "(z, c) \<in> r\<^sup>*"
      by (meson converse_rtranclE)
    then have "z \<in> reachesCycle r" using c(2) unfolding reachesCycle_def by blast
    then show ?thesis using z(1) by blast
  qed
qed

lemma total_finite_reaches_cycle:
  assumes fin: "finite S" and tot: "\<forall>x \<in> S. \<exists>y \<in> S. (x, y) \<in> r" and x: "x \<in> S"
  shows "x \<in> reachesCycle r"
proof -
  let ?rS = "r \<inter> S \<times> S"
  let ?T = "{y \<in> S. (x, y) \<in> ?rS\<^sup>*}"
  let ?rT = "r \<inter> ?T \<times> ?T"
  have xT: "x \<in> ?T" using x by simp
  have totT: "\<exists>z \<in> ?T. (y, z) \<in> ?rT" if y: "y \<in> ?T" for y
  proof -
    from y have yS: "y \<in> S" and xy: "(x, y) \<in> ?rS\<^sup>*" by simp_all
    from tot yS obtain z where z: "z \<in> S" "(y, z) \<in> r" by blast
    then have "(y, z) \<in> ?rS" using yS by simp
    then have "(x, z) \<in> ?rS\<^sup>*" using xy by (rule rtrancl_into_rtrancl[rotated])
    then have "z \<in> ?T" using z(1) by simp
    then show ?thesis using z(2) y by blast
  qed
  have "finite ?T" using fin by simp
  then have finT: "finite ?rT" by (meson finite_Int finite_SigmaI)
  have "\<not> acyclic ?rT"
  proof
    assume "acyclic ?rT"
    with finT have "wf (?rT\<inverse>)" by (rule finite_acyclic_wf_converse)
    from wfE_min[OF this xT] obtain z where
      z: "z \<in> ?T" "\<And>y. (y, z) \<in> ?rT\<inverse> \<Longrightarrow> y \<notin> ?T" by blast
    from totT[OF z(1)] obtain y where "y \<in> ?T" "(z, y) \<in> ?rT" by blast
    then show False using z(2)[of y] by blast
  qed
  then obtain c where c: "(c, c) \<in> ?rT\<^sup>+" unfolding acyclic_def by blast
  then obtain z where "(c, z) \<in> ?rT" by (meson tranclD)
  then have "c \<in> ?T" by simp
  then have "(x, c) \<in> ?rS\<^sup>*" by simp
  then have "(x, c) \<in> r\<^sup>*" using rtrancl_mono[of ?rS r] by blast
  moreover have "(c, c) \<in> r\<^sup>+" using c trancl_mono[of _ ?rT r] by blast
  ultimately show ?thesis unfolding reachesCycle_def by blast
qed

lemma tierLoop_stuck:
  assumes uniq: "distinct (map qid quests)"
    and closed: "\<forall>q \<in> set quests. set (dependencies q) \<subseteq> qid ` set quests"
  defines "r \<equiv> {(a, b). \<exists>q \<in> set quests. qid q = a \<and> b \<in> set (dependencies q)}"
  assumes cyc: "\<not> acyclic r"
  shows "tierInv quests remainingQuests processedQuestIds questTiers \<Longrightarrow>
         processedQuestIds \<inter> reachesCycle r = {} \<Longrightarrow>
         tierLoop remainingQuests processedQuestIds questTiers =
           ([Error ''Error: Circular dependency detected!'',
             Error ''The following quests could not be sorted:'']
            @ map stuckLine (filter (\<lambda>q. qid q \<in> reachesCycle r) remainingQuests), None)
         \<and> filter (\<lambda>q. qid q \<in> reachesCycle r) remainingQuests \<noteq> []"
proof (induction remainingQuests processedQuestIds questTiers rule: tierLoop.induct)
  case (1 remainingQuests processedQuestIds questTiers)
  let ?D = "reachesCycle r"
  let ?cur = "filter (depsMet processedQuestIds) remainingQuests"
  let ?nxt = "filter (\<lambda>q. \<not> depsMet processedQuestIds q) remainingQuests"
  from "1.prems"(1) have
    p: "processedQuestIds = qid ` set (concat questTiers)" and
    s: "set quests = set (concat questTiers) \<union> set remainingQuests"
    unfolding tierInv_def by auto
  have inj: "inj_on qid (set quests)" using uniq by (simp add: distinct_map)
  have rem: "set remainingQuests \<subseteq> set quests" using s by blast
  have blocked: "\<not> depsMet processedQuestIds q"
    if q: "q \<in> set remainingQuests" and c: "qid q \<in> ?D" for q
  proof -
    from reachesCycle_step[OF c] obtain z where z: "(qid q, z) \<in> r" "z \<in> ?D" by blast
    from z(1) obtain q' where q': "q' \<in> set quests" "qid q' = qid q" "z \<in> set (dependencies q')"
      unfolding r_def by auto
    have "q' = q" using inj q'(1) q'(2) q rem by (auto dest: inj_onD)
    then have zd: "z \<in> set (dependencies q)" using q'(3) by simp
    have "z \<notin> processedQuestIds" using z(2) "1.prems"(2) by blast
    then show ?thesis using zd unfolding depsMet_subset by blast
  qed
  have inD: "\<exists>q \<in> set remainingQuests. qid q = x" if x: "x \<in> ?D" for x
  proof -
    from reachesCycle_step[OF x] obtain z where "(x, z) \<in> r" by blast
    then obtain q where q: "q \<in> set quests" "qid q = x" unfolding r_def by auto
    have "q \<notin> set (concat questTiers)"
    proof
      assume "q \<in> set (concat questTiers)"
      then have "x \<in> processedQuestIds" using q(2) p by blast
      then show False using x "1.prems"(2) by blast
    qed
    then show ?thesis using q s by blast
  qed
  obtain c where "(c, c) \<in> r\<^sup>+" using cyc unfolding acyclic_def by blast
  then have "c \<in> ?D" unfolding reachesCycle_def by blast
  from inD[OF this] obtain q0 where q0: "q0 \<in> set remainingQuests" "qid q0 \<in> ?D"
    using \<open>c \<in> ?D\<close> by blast
  then have ne: "remainingQuests \<noteq> []" by auto
  have stuck_ne: "filter (\<lambda>q. qid q \<in> ?D) remainingQuests \<noteq> []"
    using q0 by (auto simp: filter_empty_conv)
  have nxt_ne: "?nxt \<noteq> []"
    using q0 blocked by (auto simp: filter_empty_conv)
  show ?case
  proof (cases "?cur = []")
    case True
    then have none: "\<forall>q \<in> set remainingQuests. \<not> depsMet processedQuestIds q"
      by (simp add: filter_empty_conv)
    then have nxt: "?nxt = remainingQuests" by simp
    have tot: "\<forall>x \<in> qid ` set remainingQuests. \<exists>y \<in> qid ` set remainingQuests. (x, y) \<in> r"
    proof
      fix x assume "x \<in> qid ` set remainingQuests"
      then obtain q where q: "q \<in> set remainingQuests" "x = qid q" by blast
      with none obtain d where d: "d \<in> set (dependencies q)" "d \<notin> processedQuestIds"
        unfolding depsMet_subset by blast
      have qq: "q \<in> set quests" using q(1) rem by blast
      then have "d \<in> qid ` set quests" using closed d(1) by blast
      then have "d \<in> qid ` set remainingQuests" using d(2) unfolding p s by blast
      moreover have "(x, d) \<in> r" unfolding r_def using qq q(2) d(1) by blast
      ultimately show "\<exists>y \<in> qid ` set remainingQuests. (x, y) \<in> r" by blast
    qed
    have "qid q \<in> ?D" if "q \<in> set remainingQuests" for q
      using total_finite_reaches_cycle[OF _ tot, of "qid q"] that by simp
    then have all: "filter (\<lambda>q. qid q \<in> ?D) remainingQuests = remainingQuests" by simp
    have "tierLoop remainingQuests processedQuestIds questTiers =
            ([Error ''Error: Circular dependency detected!'',
              Error ''The following quests could not be sorted:'']
             @ map stuckLine ?nxt, None)"
      using ne True nxt_ne by (subst tierLoop.simps) (simp add: Let_def)
    then show ?thesis using stuck_ne unfolding nxt all by simp
  next
    case False
    have inv': "tierInv quests ?nxt (processedQuestIds \<union> qid ` set ?cur) (questTiers @ [?cur])"
      using tierInv_step[OF "1.prems"(1)] by simp
    have b: "(processedQuestIds \<union> qid ` set ?cur) \<inter> ?D = {}"
      using "1.prems"(2) blocked by auto
    from "1.IH"[OF ne refl refl _ inv' b] False have
      st: "tierLoop ?nxt (processedQuestIds \<union> qid ` set ?cur) (questTiers @ [?cur]) =
             ([Error ''Error: Circular dependency detected!'',
               Error ''The following quests could not be sorted:'']
              @ map stuckLine (filter (\<lambda>q. qid q \<in> ?D) ?nxt), None)"
      by blast
    have same: "filter (\<lambda>q. qid q \<in> ?D) ?nxt = filter (\<lambda>q. qid q \<in> ?D) remainingQuests"
      unfolding filter_filter using blocked by (intro filter_cong) auto
    have "tierLoop remainingQuests processedQuestIds questTiers =
            ([Error ''Error: Circular dependency detected!'',
              Error ''The following quests could not be sorted:'']
             @ map stuckLine (filter (\<lambda>q. qid q \<in> ?D) remainingQuests), None)"
      using ne False st unfolding same by (subst tierLoop.simps) (simp add: Let_def)
    then show ?thesis using stuck_ne by simp
  qed
qed

section \<open>The list the loop starts from and the mapping as the specification reads it\<close>

lemma set_lastWins: "set (lastWins f xs) \<subseteq> set xs"
  by (induction xs) auto

lemma lastWins_map: "lastWins f (map g xs) = map g (lastWins (\<lambda>x. f (g x)) xs)"
  by (induction xs) (auto simp: image_image)

lemma lastWins_snoc: "lastWins f (xs @ [x]) = filter (\<lambda>y. f y \<noteq> f x) (lastWins f xs) @ [x]"
  by (induction xs) auto

lemma values_map_set:
  assumes "distinct (map fst m)"
  shows "snd ` set (map_set k v m) = insert v (snd ` {p \<in> set m. fst p \<noteq> k})"
  using assms
proof (induction m)
  case Nil
  then show ?case by simp
next
  case (Cons p m)
  obtain k' v' where p: "p = (k', v')" by (cases p)
  show ?case
  proof (cases "k' = k")
    case True
    then have "k \<notin> fst ` set m" using Cons.prems p by simp
    then have "{q \<in> set m. fst q \<noteq> k} = set m" by force
    then show ?thesis using True p by auto
  next
    case False
    have "{q \<in> set (p # m). fst q \<noteq> k} = insert p {q \<in> set m. fst q \<noteq> k}"
      using False p by auto
    moreover have "snd ` set (map_set k v m) = insert v (snd ` {q \<in> set m. fst q \<noteq> k})"
      using Cons by simp
    ultimately show ?thesis using False p by simp blast
  qed
qed

lemma questMap_snoc: "questMap [qs @ [q]] = map_set (qid q) q (questMap [qs])"
  by (simp add: questMap_def)

lemma questMap_values_lastWins: "set (map_values (questMap [qs])) = set (lastWins qid qs)"
proof (induction qs rule: rev_induct)
  case Nil
  then show ?case by (simp add: questMap_def map_values_def)
next
  case (snoc q qs)
  have keys: "fst p = qid (snd p)" if "p \<in> set (questMap [qs])" for p
    using questMap_entries[of "fst p" "snd p" "[qs]"] that by simp
  have "snd ` {p \<in> set (questMap [qs]). fst p \<noteq> qid q}
        = {q' \<in> snd ` set (questMap [qs]). qid q' \<noteq> qid q}"
    using keys by force
  then have "set (map_values (questMap [qs @ [q]]))
        = insert q {q' \<in> set (map_values (questMap [qs])). qid q' \<noteq> qid q}"
    unfolding questMap_snoc map_values_def
    by (simp add: values_map_set[OF questMap_distinct_keys])
  then show ?case using snoc by (auto simp: lastWins_snoc)
qed

lemma dependencyIds_spec:
  assumes "\<forall>d \<in> set (raw_dependencies questData). d \<in> set ts \<longrightarrow> generateId d \<noteq> []"
  shows "dependencyIds (snd (buildTitleToIdMap ts)) questData = specDependencyIds ts questData"
proof -
  have "[depId. Some depId \<leftarrow>
          filter Boolean (map (\<lambda>depTitle. map_get depTitle (snd (buildTitleToIdMap ts))) ds)]
        = map generateId (filter (\<lambda>d. d \<in> set ts) ds)"
    if "\<forall>d \<in> set ds. d \<in> set ts \<longrightarrow> generateId d \<noteq> []" for ds
    using that by (induction ds) (auto simp: buildTitleToIdMap_get Boolean_def)
  then show ?thesis
    unfolding dependencyIds_def specDependencyIds_def using assms by blast
qed

lemma questOf_spec:
  assumes "\<not> emptySlugDependency questMapRaw" and "e \<in> set questMapRaw"
  shows "questOf (snd (buildTitleToIdMap (map fst questMapRaw))) e =
           specQuest (map fst questMapRaw) e"
proof -
  have "\<forall>d \<in> set (raw_dependencies (snd e)).
          d \<in> set (map fst questMapRaw) \<longrightarrow> generateId d \<noteq> []"
    using assms unfolding emptySlugDependency_def list_ex_iff by auto
  from dependencyIds_spec[OF this] show ?thesis
    by (simp add: questOf_def specQuest_def)
qed

lemma questsToSort_spec:
  assumes "\<not> emptySlugDependency questMapRaw"
  shows "set (questsToSort questMapRaw) = set (specResolvedQuests questMapRaw)"
proof -
  let ?tm = "snd (buildTitleToIdMap (map fst questMapRaw))"
  let ?ts = "map fst questMapRaw"
  have eq: "map (questOf ?tm) questMapRaw = map (specQuest ?ts) questMapRaw"
    by (rule map_cong[OF refl]) (rule questOf_spec[OF assms])
  have "set (questsToSort questMapRaw) = set (lastWins qid (map (questOf ?tm) questMapRaw))"
    unfolding questsToSort_questMap by (rule questMap_values_lastWins)
  also have "\<dots> = set (lastWins qid (map (specQuest ?ts) questMapRaw))"
    unfolding eq ..
  also have "\<dots> = set (specResolvedQuests questMapRaw)"
    unfolding specResolvedQuests_def lastWins_map by (simp add: specQuest_def)
  finally show ?thesis .
qed

lemma questsToSortDeps_spec:
  "\<not> emptySlugDependency questMapRaw \<Longrightarrow>
     questsToSortDeps questMapRaw = specResolvedDeps questMapRaw"
  unfolding questsToSortDeps_def specResolvedDeps_def by (simp add: questsToSort_spec)

section \<open>Mappings without slug collisions\<close>

text \<open>
  When no two titles of the mapping share a slug, the resolved graph is the image of
  a part of the graph on titles, so an acyclic mapping has an acyclic resolved graph.
\<close>

lemma acyclic_inj_image:
  assumes inj: "inj_on g T" and sub: "r \<subseteq> T \<times> T" and acyc: "acyclic r"
  shows "acyclic (map_prod g g ` r)"
proof -
  have lift: "\<exists>a b. x = g a \<and> y = g b \<and> (a, b) \<in> r\<^sup>+"
    if "(x, y) \<in> (map_prod g g ` r)\<^sup>+" for x y
    using that
  proof (induction rule: trancl_induct)
    case (base y)
    then show ?case by auto
  next
    case (step y z)
    then obtain a b where ab: "x = g a" "y = g b" "(a, b) \<in> r\<^sup>+" by blast
    from step.hyps(2) obtain b' c where bc: "y = g b'" "z = g c" "(b', c) \<in> r" by auto
    have "b \<in> T" using ab(3) sub by (meson SigmaD2 subsetD tranclE)
    moreover have "b' \<in> T" using bc(3) sub by auto
    ultimately have "b = b'" using inj ab(2) bc(1) by (auto dest: inj_onD)
    then have "(a, c) \<in> r\<^sup>+" using ab(3) bc(3) by auto
    then show ?case using ab(1) bc(2) by blast
  qed
  show ?thesis
    unfolding acyclic_def
  proof (intro allI notI)
    fix x assume "(x, x) \<in> (map_prod g g ` r)\<^sup>+"
    from lift[OF this] obtain a b where ab: "x = g a" "x = g b" "(a, b) \<in> r\<^sup>+" by blast
    have "a \<in> T" using ab(3) sub by (meson SigmaD1 subsetD tranclD)
    moreover have "b \<in> T" using ab(3) sub by (meson SigmaD2 subsetD tranclE)
    ultimately have "a = b" using inj ab(1) ab(2) by (auto dest: inj_onD)
    then show False using ab(3) acyc unfolding acyclic_def by blast
  qed
qed

lemma specResolvedDeps_image:
  "specResolvedDeps questMapRaw \<subseteq>
     map_prod generateId generateId `
       (titleDeps questMapRaw \<inter> (fst ` set questMapRaw) \<times> (fst ` set questMapRaw))"
proof
  fix p assume "p \<in> specResolvedDeps questMapRaw"
  then obtain q d where q: "q \<in> set (specResolvedQuests questMapRaw)" "d \<in> set (dependencies q)"
    "p = (qid q, d)" unfolding specResolvedDeps_def by auto
  from q(1) obtain e where e: "e \<in> set questMapRaw" "q = specQuest (map fst questMapRaw) e"
    unfolding specResolvedQuests_def using set_lastWins by fastforce
  from q(2) e(2) obtain depTitle where dt: "depTitle \<in> set (raw_dependencies (snd e))"
    "depTitle \<in> fst ` set questMapRaw" "d = generateId depTitle"
    by (auto simp: specQuest_def specDependencyIds_def)
  have "(fst e, snd e) \<in> set questMapRaw" using e(1) by simp
  then have "(fst e, depTitle) \<in> titleDeps questMapRaw"
    unfolding titleDeps_def using dt(1) by blast
  moreover have "fst e \<in> fst ` set questMapRaw" using e(1) by simp
  moreover have "p = map_prod generateId generateId (fst e, depTitle)"
    using q(3) e(2) dt(3) by (simp add: specQuest_def)
  ultimately show "p \<in> map_prod generateId generateId `
       (titleDeps questMapRaw \<inter> (fst ` set questMapRaw) \<times> (fst ` set questMapRaw))"
    using dt(2) by blast
qed

lemma specResolvedDeps_acyclic_of_titles:
  assumes "inj_on generateId (fst ` set questMapRaw)"
    and "acyclic (titleDeps questMapRaw)"
  shows "acyclic (specResolvedDeps questMapRaw)"
proof -
  let ?T = "fst ` set questMapRaw"
  have "acyclic (titleDeps questMapRaw \<inter> ?T \<times> ?T)"
    using assms(2) by (rule acyclic_subset) simp
  then have "acyclic (map_prod generateId generateId ` (titleDeps questMapRaw \<inter> ?T \<times> ?T))"
    using acyclic_inj_image[OF assms(1), of "titleDeps questMapRaw \<inter> ?T \<times> ?T"] by simp
  then show ?thesis using specResolvedDeps_image by (rule acyclic_subset)
qed

section \<open>Evaluations of the build script\<close>

lemma generateId_samples:
  "generateId ''Top Up'' = ''top_up''"
  "generateId ''Bees!'' = ''bees''"
  "generateId ''Bees'' = ''bees''"
  "generateId ''Nowhere'' = ''nowhere''"
  "generateId ''Ping'' = ''ping''"
  "generateId ''Pong'' = ''pong''"
  "generateId ''A Bad Feeling'' = ''a_bad_feeling''"
  "generateId ''A Bad Feeling?'' = ''a_bad_feeling''"
  "generateId ''!!!'' = []"
  "generateId ''Next'' = ''next''"
  "generateId ''P'' = ''p''"
  "generateId ''Q'' = ''q''"
  "generateId ''After'' = ''after''"
  "generateId ''Free'' = ''free''"
  by (simp_all add: generateId_def toLowerCase_def alnumOrSpace_def trim_def)

lemma questsToSort_twoQuests:
  "questsToSort twoQuests =
     [\<lparr>qid = ''top_up'', title = ''Top Up'', url = ''/wiki/Top_Up'', dependencies = [''bees'']\<rparr>,
      \<lparr>qid = ''bees'', title = ''Bees!'', url = ''/wiki/Bees!'', dependencies = []\<rparr>]"
  by (simp add: questsToSort_def twoQuests_def buildTitleToIdMap_def buildAllQuests_def
      map_has_def map_get_def map_values_def dependencyIds_def Boolean_def generateId_samples)

lemma questsToSort_beesThenBees:
  "questsToSort beesThenBees =
     [\<lparr>qid = ''bees'', title = ''Bees!'', url = ''/wiki/Bees!'', dependencies = [''bees'']\<rparr>]"
  by (simp add: questsToSort_def beesThenBees_def buildTitleToIdMap_def buildAllQuests_def
      map_has_def map_get_def map_values_def dependencyIds_def Boolean_def generateId_samples)

lemma main_twoQuests:
  "snd (main (Some twoQuests)) =
     Some [[\<lparr>qid = ''bees'', title = ''Bees!'', url = ''/wiki/Bees!'', dependencies = []\<rparr>],
           [\<lparr>qid = ''top_up'', title = ''Top Up'', url = ''/wiki/Top_Up'',
               dependencies = [''bees'']\<rparr>]]"
  unfolding main_result questsToSort_twoQuests
  by (simp add: tierLoop.simps depsMet_def)

lemma main_beesThenBees: "snd (main (Some beesThenBees)) = None"
  unfolding main_result questsToSort_beesThenBees
  by (simp add: tierLoop.simps depsMet_def)

lemma main_loopQuests:
  "main (Some loopQuests) =
     ([Log ''Reading questData.json...'', Log ''Sorting quests into tiers...'',
       Error ''Error: Circular dependency detected!'',
       Error ''The following quests could not be sorted:'',
       Log ''- Ping (Dependencies: pong)'', Log ''- Pong (Dependencies: ping)''], None)"
  by (simp add: main_def loopQuests_def buildTitleToIdMap_def buildAllQuests_def
      map_has_def map_get_def map_values_def dependencyIds_def Boolean_def generateId_samples
      tierLoop.simps depsMet_def stuckLine_def)

text \<open>Only the quests that lead into the cycle are listed: \<open>Free\<close> is not.\<close>

lemma main_partlyStuck:
  "main (Some partlyStuck) =
     ([Log ''Reading questData.json...'', Log ''Sorting quests into tiers...'',
       Error ''Error: Circular dependency detected!'',
       Error ''The following quests could not be sorted:'',
       Log ''- P (Dependencies: q)'', Log ''- Q (Dependencies: p)'',
       Log ''- After (Dependencies: p)''], None)"
  by (simp add: main_def partlyStuck_def buildTitleToIdMap_def buildAllQuests_def
      map_has_def map_get_def map_values_def dependencyIds_def Boolean_def generateId_samples
      tierLoop.simps depsMet_def stuckLine_def)

lemma acyclic_single_edge:
  assumes "a \<noteq> b"
  shows "acyclic {(a, b)}"
proof -
  have "acyclic ({} :: ('a \<times> 'a) set)" by (simp add: acyclic_def)
  then show ?thesis using assms by simp
qed

lemma specResolvedQuests_twoQuests:
  "specResolvedQuests twoQuests =
     [\<lparr>qid = ''top_up'', title = ''Top Up'', url = ''/wiki/Top_Up'', dependencies = [''bees'']\<rparr>,
      \<lparr>qid = ''bees'', title = ''Bees!'', url = ''/wiki/Bees!'', dependencies = []\<rparr>]"
  by (simp add: specResolvedQuests_def specQuest_def specDependencyIds_def twoQuests_def
      generateId_samples)

lemma twoQuests_no_empty_slug: "\<not> emptySlugDependency twoQuests"
  by (simp add: emptySlugDependency_def twoQuests_def generateId_samples)

lemma twoQuests_acyclic: "acyclic (specResolvedDeps twoQuests)"
proof -
  have "specResolvedDeps twoQuests = {(''top_up'', ''bees'')}"
    unfolding specResolvedDeps_def specResolvedQuests_twoQuests by auto
  then show ?thesis using acyclic_single_edge[of "''top_up''" "''bees''"] by simp
qed

lemma beesThenBees_title_acyclic: "acyclic (titleDeps beesThenBees)"
proof -
  have "titleDeps beesThenBees = {(''Bees!'', ''Bees'')}"
    unfolding titleDeps_def beesThenBees_def by auto
  then show ?thesis using acyclic_single_edge[of "''Bees!''" "''Bees''"] by simp
qed

lemma specResolvedQuests_emptySlugCycle:
  "specResolvedQuests emptySlugCycle =
     [\<lparr>qid = [], title = ''!!!'', url = ''/wiki/!!!'', dependencies = [''next'']\<rparr>,
      \<lparr>qid = ''next'', title = ''Next'', url = ''/wiki/Next'', dependencies = [[]]\<rparr>]"
  by (simp add: specResolvedQuests_def specQuest_def specDependencyIds_def emptySlugCycle_def
      generateId_samples)

lemma emptySlugCycle_cyclic: "\<not> acyclic (specResolvedDeps emptySlugCycle)"
proof -
  have "([], ''next'') \<in> specResolvedDeps emptySlugCycle"
    "(''next'', []) \<in> specResolvedDeps emptySlugCycle"
    unfolding specResolvedDeps_def specResolvedQuests_emptySlugCycle by auto
  then have "([], []) \<in> (specResolvedDeps emptySlugCycle)\<^sup>+" by (meson trancl.simps)
  then show ?thesis unfolding acyclic_def by blast
qed

lemma main_emptySlugCycle:
  "main (Some emptySlugCycle) =
     ([Log ''Reading questData.json...'', Log ''Sorting quests into tiers...'',
       Log ''Sorted 2 quests into 2 tiers.'',
       Log ''Successfully generated: ./app/composables/questData.ts''],
      Some [[\<lparr>qid = ''next'', title = ''Next'', url = ''/wiki/Next'', dependencies = []\<rparr>],
            [\<lparr>qid = [], title = ''!!!'', url = ''/wiki/!!!'', dependencies = [''next'']\<rparr>]])"
  by (simp add: main_def emptySlugCycle_def buildTitleToIdMap_def buildAllQuests_def
      map_has_def map_get_def map_values_def dependencyIds_def Boolean_def generateId_samples
      tierLoop.simps depsMet_def toString.simps)

section \<open>The tier loop on the list it starts from\<close>

lemma main_sorts_questsToSort:
  assumes "acyclic (questsToSortDeps questMapRaw)"
  shows "\<exists>questTiers. snd (main (Some questMapRaw)) = Some questTiers
           \<and> set (concat questTiers) = set (questsToSort questMapRaw)
           \<and> distinct (concat questTiers)
           \<and> (\<forall>q \<in> set (questsToSort questMapRaw).
                 \<exists>!t. t < length questTiers \<and> q \<in> set (questTiers ! t))
           \<and> (\<forall>t < length questTiers. \<forall>q \<in> set (questTiers ! t).
                 depsBelow questTiers t q \<and> (\<forall>t' < t. \<not> depsBelow questTiers t' q))"
proof -
  let ?quests = "questsToSort questMapRaw"
  have acyc: "acyclic {(a, b). \<exists>q \<in> set ?quests. qid q = a \<and> b \<in> set (dependencies q)}"
    using assms unfolding questsToSortDeps_def .
  have closed: "\<forall>q \<in> set ?quests. set (dependencies q) \<subseteq> qid ` set ?quests"
    by (intro ballI questsToSort_closed)
  have "distinct ?quests"
    using questsToSort_distinct[of questMapRaw] by (simp add: distinct_map)
  then have "tierInv ?quests ?quests {} []" by (rule tierInv_init)
  from tierLoop_sorts[OF acyc closed this] obtain tiers where
    run: "tierLoop ?quests {} [] = ([], Some tiers)" and
    inv: "tierInv ?quests [] (qid ` set (concat tiers)) tiers" by blast
  from inv have
    d: "distinct (concat tiers)" and
    s: "set (concat tiers) = set ?quests" and
    placed: "\<forall>t < length tiers. \<forall>q \<in> set (tiers ! t).
               depsBelow tiers t q \<and> (\<forall>t' < t. \<not> depsBelow tiers t' q)"
    unfolding tierInv_def by simp_all
  have one: "\<exists>!t. t < length tiers \<and> q \<in> set (tiers ! t)" if "q \<in> set ?quests" for q
  proof -
    from that have "q \<in> set (concat tiers)" using s by simp
    then obtain t where t: "t < length tiers" "q \<in> set (tiers ! t)"
      using in_concat_nth[of q tiers] by blast
    show ?thesis
    proof (rule ex1I[of _ t])
      show "t < length tiers \<and> q \<in> set (tiers ! t)" using t by simp
    next
      fix t' assume "t' < length tiers \<and> q \<in> set (tiers ! t')"
      then show "t' = t" using distinct_concat_index[OF d _ _ _ t(2), of t'] t(1) by simp
    qed
  qed
  have res: "snd (main (Some questMapRaw)) = Some tiers"
    unfolding main_result run by simp
  show ?thesis
  proof (intro exI[of _ tiers] conjI)
    show "snd (main (Some questMapRaw)) = Some tiers" by (rule res)
    show "set (concat tiers) = set ?quests" by (rule s)
    show "distinct (concat tiers)" by (rule d)
    show "\<forall>q \<in> set ?quests. \<exists>!t. t < length tiers \<and> q \<in> set (tiers ! t)"
      using one by blast
    show "\<forall>t < length tiers. \<forall>q \<in> set (tiers ! t).
            depsBelow tiers t q \<and> (\<forall>t' < t. \<not> depsBelow tiers t' q)" by (rule placed)
  qed
qed

lemma main_stuck_questsToSort:
  assumes "\<not> acyclic (questsToSortDeps questMapRaw)"
  shows "main (Some questMapRaw) =
           ([Log ''Reading questData.json...''] @ fst (buildTitleToIdMap (map fst questMapRaw))
            @ [Log ''Sorting quests into tiers...'',
               Error ''Error: Circular dependency detected!'',
               Error ''The following quests could not be sorted:'']
            @ map stuckLine
                (filter (\<lambda>q. qid q \<in> reachesCycle (questsToSortDeps questMapRaw))
                   (questsToSort questMapRaw)), None)"
proof -
  let ?quests = "questsToSort questMapRaw"
  let ?r = "{(a, b). \<exists>q \<in> set ?quests. qid q = a \<and> b \<in> set (dependencies q)}"
  have r: "questsToSortDeps questMapRaw = ?r" unfolding questsToSortDeps_def ..
  have cyc: "\<not> acyclic ?r" using assms unfolding r .
  have closed: "\<forall>q \<in> set ?quests. set (dependencies q) \<subseteq> qid ` set ?quests"
    by (intro ballI questsToSort_closed)
  have "distinct ?quests"
    using questsToSort_distinct[of questMapRaw] by (simp add: distinct_map)
  then have inv: "tierInv ?quests ?quests {} []" by (rule tierInv_init)
  from tierLoop_stuck[OF questsToSort_distinct closed cyc inv]
  have run: "tierLoop ?quests {} [] =
            ([Error ''Error: Circular dependency detected!'',
              Error ''The following quests could not be sorted:'']
             @ map stuckLine (filter (\<lambda>q. qid q \<in> reachesCycle ?r) ?quests), None)"
    by simp
  have none: "snd (tierLoop ?quests {} []) = None" using run by simp
  show ?thesis
    using main_console_abort[OF none] main_result[of questMapRaw] run
    unfolding r by (simp add: prod_eq_iff)
qed

section \<open>Claims about the build script\<close>

text \<open>
  Claim C3, as amended. The resolved quests and their dependency graph are read off
  the input mapping as the specification says: one quest for each slug id, a later
  title taking the place of an earlier one of the same slug, and every dependency
  title that names a quest of the mapping rewritten to its id. When that graph is
  acyclic, and no entry depends on a quest whose slug is the empty string, \<open>main\<close>
  writes a catalog. Every resolved quest is in exactly one tier and occurs once;
  every dependency of a quest in tier \<open>t\<close> is the id of a quest in a tier below \<open>t\<close>;
  and for no \<open>t'\<close> below \<open>t\<close> do all its dependencies lie below \<open>t'\<close>. By
  \<open>specResolvedDeps_acyclic_of_titles\<close> the graph is acyclic for every mapping that is
  acyclic on titles and has no two titles of one slug. What \<open>main\<close> does with a
  dependency on a quest of empty slug is not part of the statement.
\<close>

theorem main_sorts_acyclic_resolved_graph:
  assumes "\<not> emptySlugDependency questMapRaw"
    and "acyclic (specResolvedDeps questMapRaw)"
  shows "\<exists>questTiers. snd (main (Some questMapRaw)) = Some questTiers
           \<and> set (concat questTiers) = set (specResolvedQuests questMapRaw)
           \<and> distinct (concat questTiers)
           \<and> (\<forall>q \<in> set (specResolvedQuests questMapRaw).
                 \<exists>!t. t < length questTiers \<and> q \<in> set (questTiers ! t))
           \<and> (\<forall>t < length questTiers. \<forall>q \<in> set (questTiers ! t).
                 depsBelow questTiers t q \<and> (\<forall>t' < t. \<not> depsBelow questTiers t' q))"
  using main_sorts_questsToSort[of questMapRaw] assms(2)
  unfolding questsToSortDeps_spec[OF assms(1)] questsToSort_spec[OF assms(1)]
  by blast

theorem main_sorts_acyclic_resolved_graph_witness:
  "\<not> emptySlugDependency twoQuests
   \<and> acyclic (specResolvedDeps twoQuests)
   \<and> snd (main (Some twoQuests)) =
       Some [[\<lparr>qid = ''bees'', title = ''Bees!'', url = ''/wiki/Bees!'', dependencies = []\<rparr>],
             [\<lparr>qid = ''top_up'', title = ''Top Up'', url = ''/wiki/Top_Up'',
                 dependencies = [''bees'']\<rparr>]]
   \<and> distinct (concat
        [[\<lparr>qid = ''bees'', title = ''Bees!'', url = ''/wiki/Bees!'', dependencies = []\<rparr>],
         [\<lparr>qid = ''top_up'', title = ''Top Up'', url = ''/wiki/Top_Up'',
             dependencies = [''bees'']\<rparr>]])"
  using main_sorts_acyclic_resolved_graph[OF twoQuests_no_empty_slug twoQuests_acyclic]
    twoQuests_no_empty_slug twoQuests_acyclic main_twoQuests
  by auto

text \<open>
  The claim as it is written fails on two titles of one slug: the mapping is acyclic
  on titles, the second title takes the place of the first under the shared id and
  then depends on its own id, and \<open>main\<close> stops with the circular-dependency error.
\<close>

theorem main_rejects_acyclic_titles_with_one_slug:
  "acyclic (titleDeps beesThenBees)
   \<and> distinct (map fst beesThenBees)
   \<and> snd (main (Some beesThenBees)) = None"
  using beesThenBees_title_acyclic main_beesThenBees by (simp add: beesThenBees_def)

text \<open>
  Claim C4 does not hold of the code. In the mapping \<open>emptySlugCycle\<close> the quests
  \<open>!!!\<close> and \<open>Next\<close> depend on each other, so the mapping has a cycle on titles and on
  resolved ids. The id of \<open>!!!\<close> is the empty string, \<open>.filter(Boolean)\<close> takes it out of
  the dependencies of \<open>Next\<close> as if the title had no quest, and \<open>main\<close> reports no error
  and writes a catalog of two tiers.
\<close>

theorem main_writes_catalog_for_empty_slug_cycle:
  "\<not> acyclic (titleDeps emptySlugCycle)
   \<and> \<not> acyclic (specResolvedDeps emptySlugCycle)
   \<and> main (Some emptySlugCycle) =
       ([Log ''Reading questData.json...'', Log ''Sorting quests into tiers...'',
         Log ''Sorted 2 quests into 2 tiers.'',
         Log ''Successfully generated: ./app/composables/questData.ts''],
        Some [[\<lparr>qid = ''next'', title = ''Next'', url = ''/wiki/Next'', dependencies = []\<rparr>],
              [\<lparr>qid = [], title = ''!!!'', url = ''/wiki/!!!'', dependencies = [''next'']\<rparr>]])"
proof -
  have "(''!!!'', ''Next'') \<in> titleDeps emptySlugCycle" "(''Next'', ''!!!'') \<in> titleDeps emptySlugCycle"
    unfolding titleDeps_def emptySlugCycle_def by auto
  then have "(''!!!'', ''!!!'') \<in> (titleDeps emptySlugCycle)\<^sup>+" by (meson trancl.simps)
  then have "\<not> acyclic (titleDeps emptySlugCycle)" unfolding acyclic_def by blast
  then show ?thesis using emptySlugCycle_cyclic main_emptySlugCycle by simp
qed

text \<open>
  Where no entry depends on a quest whose slug is the empty string, the code does
  what the claim says. With a cycle in the resolved graph \<open>main\<close> writes no file; its
  console output ends with the two error lines and one line, title and dependencies,
  for each resolved quest from which a cycle can be reached, and for no other quest.
\<close>

lemma main_reports_cycle:
  assumes "\<not> emptySlugDependency questMapRaw"
    and "\<not> acyclic (specResolvedDeps questMapRaw)"
  shows "\<exists>warnings stuck.
           main (Some questMapRaw) =
             ([Log ''Reading questData.json...''] @ warnings
              @ [Log ''Sorting quests into tiers...'',
                 Error ''Error: Circular dependency detected!'',
                 Error ''The following quests could not be sorted:'']
              @ map stuckLine stuck, None)
           \<and> distinct stuck
           \<and> set stuck = {q \<in> set (specResolvedQuests questMapRaw).
                            qid q \<in> reachesCycle (specResolvedDeps questMapRaw)}"
proof -
  let ?stuck = "filter (\<lambda>q. qid q \<in> reachesCycle (questsToSortDeps questMapRaw))
                  (questsToSort questMapRaw)"
  have cyc: "\<not> acyclic (questsToSortDeps questMapRaw)"
    using assms(2) unfolding questsToSortDeps_spec[OF assms(1)] .
  have "distinct (questsToSort questMapRaw)"
    using questsToSort_distinct[of questMapRaw] by (simp add: distinct_map)
  then have d: "distinct ?stuck" by simp
  have s: "set ?stuck = {q \<in> set (specResolvedQuests questMapRaw).
                          qid q \<in> reachesCycle (specResolvedDeps questMapRaw)}"
    unfolding questsToSortDeps_spec[OF assms(1)]
    using questsToSort_spec[OF assms(1)] by auto
  show ?thesis
    using main_stuck_questsToSort[OF cyc] d s by blast
qed

text \<open>
  Claim C5 does not hold of the code. The titles \<open>A Bad Feeling\<close> and \<open>A Bad Feeling?\<close>
  have the same slug. \<open>main\<close> writes a catalog with one quest, the second title's, and
  its console output has no warning: the test before the warning looks the title up
  where it would have to look the id up.
\<close>

theorem main_silent_on_slug_collision:
  "generateId ''A Bad Feeling'' = generateId ''A Bad Feeling?''
   \<and> main (Some sameSlug) =
       ([Log ''Reading questData.json...'', Log ''Sorting quests into tiers...'',
         Log ''Sorted 1 quests into 1 tiers.'',
         Log ''Successfully generated: ./app/composables/questData.ts''],
        Some [[\<lparr>qid = ''a_bad_feeling'', title = ''A Bad Feeling?'',
                 url = ''/wiki/A_Bad_Feeling%3F'', dependencies = []\<rparr>]])"
  by (simp add: main_def sameSlug_def buildTitleToIdMap_def buildAllQuests_def
      map_has_def map_get_def map_values_def dependencyIds_def Boolean_def generateId_samples
      tierLoop.simps depsMet_def toString.simps)

text \<open>
  More generally, no input object makes \<open>main\<close> warn at all: the keys of an object
  are distinct, and the test before the warning is on the key.
\<close>

lemma isWarn_simps:
  "isWarn (Log s) = False" "isWarn (Error s) = False" "isWarn (Warn s) = True"
  by (simp_all add: isWarn_def)

lemma tierLoop_never_warns:
  "\<not> list_ex isWarn (fst (tierLoop remainingQuests processedQuestIds questTiers))"
proof (induction remainingQuests processedQuestIds questTiers rule: tierLoop.induct)
  case (1 remainingQuests processedQuestIds questTiers)
  show ?case
  proof (cases "remainingQuests = []")
    case True
    then show ?thesis by (subst tierLoop.simps) simp
  next
    case ne: False
    let ?cur = "filter (depsMet processedQuestIds) remainingQuests"
    let ?nxt = "filter (\<lambda>q. \<not> depsMet processedQuestIds q) remainingQuests"
    show ?thesis
    proof (cases "?cur = [] \<and> ?nxt \<noteq> []")
      case True
      then show ?thesis using ne
        by (subst tierLoop.simps)
           (simp add: Let_def isWarn_simps stuckLine_def list_ex_iff del: filter_False)
    next
      case False
      then show ?thesis using ne "1.IH"[OF ne refl refl False]
        by (subst tierLoop.simps) (simp add: Let_def isWarn_simps)
    qed
  qed
qed

lemma main_never_warns:
  assumes "distinct (map fst questMapRaw)"
  shows "\<not> list_ex isWarn (fst (main (Some questMapRaw)))"
proof -
  obtain w tm where b: "buildTitleToIdMap (map fst questMapRaw) = (w, tm)"
    by (cases "buildTitleToIdMap (map fst questMapRaw)")
  obtain errs sorted where
    t: "tierLoop (map_values (buildAllQuests tm questMapRaw)) {} [] = (errs, sorted)"
    by (cases "tierLoop (map_values (buildAllQuests tm questMapRaw)) {} []")
  have w: "w = []" using buildTitleToIdMap_quiet[OF assms] b by simp
  have e: "\<not> list_ex isWarn errs"
    using tierLoop_never_warns[of "map_values (buildAllQuests tm questMapRaw)" "{}" "[]"] t
    by simp
  show ?thesis
    unfolding main_def using e
    by (cases sorted) (simp_all add: b t w isWarn_simps)
qed

end
